theory Spec2Isabelle
  imports Main
begin

section \<open>JavaScript values used by scrape.js\<close>

text \<open>
  Strings are lists of characters. A JavaScript number is either \<open>NaN\<close> or some other
  number; the type \<open>'n\<close> of the other numbers is a parameter, and so are the two
  conversions the program applies to them: \<open>str2num\<close> (what unary \<open>+\<close> does to a
  string) and \<open>num2str\<close> (how \<open>Array.prototype.join\<close> prints a number).
  An object is the list of its own properties in \<open>Object.keys\<close> order.
\<close>

abbreviation DQ :: char where "DQ \<equiv> CHR 0x22"
abbreviation NL :: char where "NL \<equiv> CHR 0x0A"
abbreviation COMMA :: char where "COMMA \<equiv> CHR 0x2C"

datatype 'n jsnum = NaN | Num 'n

datatype 'n jsval = JString string | JNumber "'n jsnum" | JNull | JUndefined

type_synonym 'n jsobject = "(string \<times> 'n jsval) list"

text \<open>\<open>Object.keys(o)\<close> and the property read \<open>o[k]\<close> (a missing property reads \<open>undefined\<close>).\<close>

definition keys :: "'n jsobject \<Rightarrow> string list" where
  "keys obj = map fst obj"

definition get_prop :: "'n jsobject \<Rightarrow> string \<Rightarrow> 'n jsval" where
  "get_prop obj k = (case map_of obj k of None \<Rightarrow> JUndefined | Some v \<Rightarrow> v)"

text \<open>\<open>xs.join(sep)\<close> on an array of strings.\<close>

fun join :: "string \<Rightarrow> string list \<Rightarrow> string" where
  "join sep [] = []"
| "join sep [x] = x"
| "join sep (x # y # ys) = x @ sep @ join sep (y # ys)"

text \<open>
  How \<open>join\<close> prints one array element: \<open>undefined\<close> and \<open>null\<close> print as the empty
  string, a string as itself, a number through \<open>Number::toString\<close>, which prints
  \<open>NaN\<close> as the text NaN.
\<close>

definition NumberToString :: "('n \<Rightarrow> string) \<Rightarrow> 'n jsnum \<Rightarrow> string" where
  "NumberToString num2str n = (case n of NaN \<Rightarrow> ''NaN'' | Num x \<Rightarrow> num2str x)"

definition join_item :: "('n \<Rightarrow> string) \<Rightarrow> 'n jsval \<Rightarrow> string" where
  "join_item num2str v =
     (case v of JString s \<Rightarrow> s | JNumber n \<Rightarrow> NumberToString num2str n
      | JNull \<Rightarrow> [] | JUndefined \<Rightarrow> [])"

section \<open>convertToCsv (scrape.js, lines 14-45)\<close>

text \<open>\<open>value.replace(/"/g, '""')\<close>: every double quote is doubled.\<close>

fun replace_quotes :: "string \<Rightarrow> string" where
  "replace_quotes [] = []"
| "replace_quotes (c # cs) = (if c = DQ then DQ # DQ # replace_quotes cs else c # replace_quotes cs)"

text \<open>\<open>value.includes(c)\<close> for a one-character needle.\<close>

definition includes_char :: "string \<Rightarrow> char \<Rightarrow> bool" where
  "includes_char s c = (c \<in> set s)"

text \<open>The callback of \<open>headers.map\<close> (lines 28-40), applied to the value \<open>row[header]\<close>.\<close>

definition csv_value :: "'n jsval \<Rightarrow> 'n jsval" where
  "csv_value v =
     (case v of
        JString s \<Rightarrow>
          (let s' = replace_quotes s in
           if includes_char s' COMMA \<or> includes_char s' NL then JString ([DQ] @ s' @ [DQ])
           else JString s')
      | JNull \<Rightarrow> JString []
      | JUndefined \<Rightarrow> JString []
      | JNumber n \<Rightarrow> JNumber n)"

definition csv_field :: "('n \<Rightarrow> string) \<Rightarrow> 'n jsval \<Rightarrow> string" where
  "csv_field num2str v = join_item num2str (csv_value v)"

text \<open>One data row (lines 28-41) and the header row (line 24).\<close>

definition csv_row :: "('n \<Rightarrow> string) \<Rightarrow> string list \<Rightarrow> 'n jsobject \<Rightarrow> string" where
  "csv_row num2str headers row = join [COMMA] (map (\<lambda>header. csv_field num2str (get_prop row header)) headers)"

definition csv_header :: "string list \<Rightarrow> string" where
  "csv_header headers = join [COMMA] (map (\<lambda>header. [DQ] @ header @ [DQ]) headers)"

text \<open>
  The argument is \<open>None\<close> for \<open>null\<close> or \<open>undefined\<close> (the \<open>!data\<close> test), otherwise the
  array. The loop of lines 27-42 pushes one line per element.
\<close>

definition convertToCsv :: "('n \<Rightarrow> string) \<Rightarrow> 'n jsobject list option \<Rightarrow> string" where
  "convertToCsv num2str data =
     (case data of
        None \<Rightarrow> []
      | Some [] \<Rightarrow> []
      | Some (first # rest) \<Rightarrow>
          (let headers = keys first;
               csvRows = foldl (\<lambda>rows row. rows @ [csv_row num2str headers row])
                           [csv_header headers] (first # rest)
           in join [NL] csvRows))"

section \<open>The table extractor (scrape.js, lines 152-172)\<close>

text \<open>
  \<open>String.prototype.trim\<close> removes white space and line terminators from both ends;
  among 8-bit characters these are TAB, LF, VT, FF, CR, SPACE and NBSP.
\<close>

definition is_js_space :: "char \<Rightarrow> bool" where
  "is_js_space c = (c \<in> set [CHR 0x09, CHR 0x0A, CHR 0x0B, CHR 0x0C, CHR 0x0D, CHR 0x20, CHR 0xA0])"

definition trim :: "string \<Rightarrow> string" where
  "trim s = rev (dropWhile is_js_space (rev (dropWhile is_js_space s)))"

text \<open>
  A table row is the list of the \<open>innerText\<close>s of its \<open>td\<close> cells.
  \<open>cells[k]?.innerText.trim()\<close> is \<open>undefined\<close> (here \<open>None\<close>) when the row has no cell
  \<open>k\<close>; unary \<open>+\<close> turns \<open>undefined\<close> into \<open>NaN\<close> and a string into \<open>str2num\<close> of it.
\<close>

definition cell_text :: "string list \<Rightarrow> nat \<Rightarrow> string option" where
  "cell_text cells k = (if k < length cells then Some (trim (cells ! k)) else None)"

definition text_field :: "string option \<Rightarrow> 'n jsval" where
  "text_field t = (case t of None \<Rightarrow> JUndefined | Some s \<Rightarrow> JString s)"

definition number_field :: "(string \<Rightarrow> 'n jsnum) \<Rightarrow> string option \<Rightarrow> 'n jsval" where
  "number_field str2num t = (case t of None \<Rightarrow> JNumber NaN | Some s \<Rightarrow> JNumber (str2num s))"

text \<open>The object literal of lines 159-168.\<close>

definition make_record :: "(string \<Rightarrow> 'n jsnum) \<Rightarrow> string list \<Rightarrow> 'n jsobject" where
  "make_record str2num cells =
     [(''sno'', number_field str2num (cell_text cells 0)),
      (''hallticketno'', text_field (cell_text cells 1)),
      (''rank'', number_field str2num (cell_text cells 2)),
      (''name'', text_field (cell_text cells 3)),
      (''sex'', text_field (cell_text cells 4)),
      (''caste'', text_field (cell_text cells 5)),
      (''region'', text_field (cell_text cells 6)),
      (''seatcategory'', text_field (cell_text cells 7))]"

text \<open>The loop \<open>for (let i = 1; i < rows.length; i++)\<close> with its accumulator \<open>records\<close>.\<close>

function extract_loop ::
  "(string \<Rightarrow> 'n jsnum) \<Rightarrow> string list list \<Rightarrow> nat \<Rightarrow> 'n jsobject list \<Rightarrow> 'n jsobject list" where
  "extract_loop str2num rows i records =
     (if i < length rows then
        (let cells = rows ! i in
         extract_loop str2num rows (i + 1)
           (if length cells > 1 then records @ [make_record str2num cells] else records))
      else records)"
  by pat_completeness auto
termination
  by (relation "measure (\<lambda>(str2num, rows, i, records). length rows - i)") auto

definition tableData :: "(string \<Rightarrow> 'n jsnum) \<Rightarrow> string list list \<Rightarrow> 'n jsobject list" where
  "tableData str2num rows = extract_loop str2num rows 1 []"

text \<open>
  The loop runs in the page: \<open>await newPage.evaluate(...)\<close> (line 152) hands its value
  to the program by value, as a JSON copy. In the copy a property whose value is
  \<open>undefined\<close> is left out, and \<open>NaN\<close> arrives as \<open>null\<close>, as does every other number
  JSON cannot carry; \<open>json_num\<close> gives the number that arrives for a number, and \<open>None\<close>
  where none does (the infinities). \<open>received_records\<close> is what line 152 assigns to
  \<open>tableData\<close>.
\<close>

definition by_value_val :: "('n \<Rightarrow> 'n option) \<Rightarrow> 'n jsval \<Rightarrow> 'n jsval option" where
  "by_value_val json_num v =
     (case v of
        JUndefined \<Rightarrow> None
      | JNull \<Rightarrow> Some JNull
      | JString s \<Rightarrow> Some (JString s)
      | JNumber NaN \<Rightarrow> Some JNull
      | JNumber (Num x) \<Rightarrow>
          (case json_num x of None \<Rightarrow> Some JNull | Some y \<Rightarrow> Some (JNumber (Num y))))"

definition by_value :: "('n \<Rightarrow> 'n option) \<Rightarrow> 'n jsobject \<Rightarrow> 'n jsobject" where
  "by_value json_num obj =
     concat (map (\<lambda>(k, v). case by_value_val json_num v of None \<Rightarrow> [] | Some v' \<Rightarrow> [(k, v')]) obj)"

definition received_records ::
  "(string \<Rightarrow> 'n jsnum) \<Rightarrow> ('n \<Rightarrow> 'n option) \<Rightarrow> string list list \<Rightarrow> 'n jsobject list" where
  "received_records str2num json_num rows = map (by_value json_num) (tableData str2num rows)"

section \<open>The two dropdown readers (scrape.js, lines 86-90 and 121-125)\<close>

text \<open>
  A DOM option element with its \<open>text\<close> and \<open>value\<close>, and the object
  \<open>{ name: option.text, value: option.value }\<close> the program makes of it.
\<close>

record dom_option =
  option_text :: string
  option_value :: string

record opt =
  opt_name :: string
  opt_value :: string

definition to_opt :: "dom_option \<Rightarrow> opt" where
  "to_opt option = \<lparr>opt_name = option_text option, opt_value = option_value option\<rparr>"

definition college_options :: "dom_option list \<Rightarrow> opt list" where
  "college_options options = filter (\<lambda>opt. opt_value opt \<noteq> []) (map to_opt options)"

definition branch_options :: "dom_option list \<Rightarrow> opt list" where
  "branch_options options = filter (\<lambda>opt. opt_value opt \<noteq> ''0'') (map to_opt options)"

section \<open>A decimal instance of the number conversions\<close>

text \<open>
  The theorems below hold for every \<open>str2num\<close>, \<open>num2str\<close> and \<open>json_num\<close>. To run
  examples, this instance takes the natural numbers as the numbers: it is what
  JavaScript computes on the empty string and on texts of decimal digits (below
  \<open>2^53\<close>), the only texts the examples convert; a JSON copy carries each of these
  numbers unchanged.
\<close>

fun decimal_value :: "nat \<Rightarrow> string \<Rightarrow> nat option" where
  "decimal_value acc [] = Some acc"
| "decimal_value acc (c # cs) =
     (let d = (of_char c :: nat) in
      if 48 \<le> d \<and> d \<le> 57 then decimal_value (10 * acc + (d - 48)) cs else None)"

definition dec_str2num :: "string \<Rightarrow> nat jsnum" where
  "dec_str2num s = (case decimal_value 0 s of Some n \<Rightarrow> Num n | None \<Rightarrow> NaN)"

fun dec_num2str :: "nat \<Rightarrow> string" where
  "dec_num2str n =
     (if n < 10 then [''0123456789'' ! n]
      else dec_num2str (n div 10) @ [''0123456789'' ! (n mod 10)])"

declare dec_num2str.simps [simp del]

section \<open>The crawl (scrape.js, lines 47-219)\<close>

text \<open>
  The browser, the site and the file system are a world of some type \<open>'w\<close>. An awaited
  call is an action on the world that returns a value or throws (\<open>Inl\<close>), and leaves the
  world changed either way. The program is given the calls it makes as an environment;
  nothing is assumed about what they do.
\<close>

datatype exn = Error string

fun message :: "exn \<Rightarrow> string" where
  "message (Error m) = m"

type_synonym ('a, 'w) action = "'w \<Rightarrow> (exn + 'a) \<times> 'w"

text \<open>
  \<open>open_form_page\<close> stands for lines 50-82 (launch the browser, open the home page,
  follow the allotment link, wait for the new page); \<open>query_options\<close> reads
  \<open>document.querySelector(selector).options\<close> and \<open>query_rows\<close> reads the \<open>td\<close> texts of
  the rows \<open>document.querySelectorAll(selector + " tr")\<close> inside \<open>newPage.evaluate\<close>; the
  other fields are the methods of \<open>newPage\<close>, \<open>fs\<close>, \<open>path\<close> and \<open>browser\<close> of the same name.
\<close>

record ('w, 'n) env =
  open_form_page :: "(unit, 'w) action"
  select :: "string \<Rightarrow> string \<Rightarrow> (unit, 'w) action"
  waitForNavigation :: "(unit, 'w) action"
  waitForSelector :: "string \<Rightarrow> (unit, 'w) action"
  click :: "string \<Rightarrow> (unit, 'w) action"
  goBack :: "(unit, 'w) action"
  query_options :: "string \<Rightarrow> (dom_option list, 'w) action"
  query_rows :: "string \<Rightarrow> (string list list, 'w) action"
  existsSync :: "string \<Rightarrow> 'w \<Rightarrow> bool"
  mkdirSync :: "string \<Rightarrow> (unit, 'w) action"
  writeFileSync :: "string \<Rightarrow> string \<Rightarrow> (unit, 'w) action"
  resolve :: "string \<Rightarrow> string \<Rightarrow> string"
  dirname :: string
  browser_close :: "(unit, 'w) action"
  env_str2num :: "string \<Rightarrow> 'n jsnum"
  env_num2str :: "'n \<Rightarrow> string"
  env_json_num :: "'n \<Rightarrow> 'n option"

text \<open>
  What a run leaves behind for an observer: the lines written to the console of the part
  modelled in detail (lines 84-218), one constructor per message with the values it
  prints, and the calls of \<open>fs.writeFileSync\<close> with path and data.
\<close>

datatype event =
    Log_ExtractingColleges
  | Log_FoundColleges nat
  | Log_CreatedBaseDir string
  | Log_ProcessingCollege string string
  | Log_CreatedCollegeDir string
  | Log_SelectingCollege string
  | Log_CollegeSelected
  | Log_ExtractingBranches
  | Log_FoundBranches nat string
  | Log_Fetching string
  | Log_ClickingSubmit
  | Log_ResultsLoaded
  | Log_ScrapingTable
  | Log_Scraped nat string
  | Log_DataSaved string
  | Log_NoData string
  | Log_GoingBack
  | Log_Returned
  | Err_CouldNotFetch string string string
  | Log_AttemptingGoBack
  | Log_ReturnedAfterError
  | Err_FailedToGoBack string
  | Log_Complete
  | Log_BrowserClosed
  | WriteFile string string

text \<open>
  A piece of the program takes the world and gives its result (or the exception it
  throws), the new world and the events it emitted, in order.
\<close>

type_synonym ('a, 'w) prog = "'w \<Rightarrow> (exn + 'a) \<times> 'w \<times> event list"

definition result :: "(exn + 'a) \<times> 'w \<times> event list \<Rightarrow> exn + 'a" where
  "result out = fst out"

definition world_after :: "(exn + 'a) \<times> 'w \<times> event list \<Rightarrow> 'w" where
  "world_after out = fst (snd out)"

definition events :: "(exn + 'a) \<times> 'w \<times> event list \<Rightarrow> event list" where
  "events out = snd (snd out)"

definition return :: "'a \<Rightarrow> ('a, 'w) prog" where
  "return a w = (Inr a, w, [])"

definition console :: "event \<Rightarrow> (unit, 'w) prog" where
  "console e w = (Inr (), w, [e])"

definition await :: "('a, 'w) action \<Rightarrow> ('a, 'w) prog" where
  "await act w = (case act w of (r, w') \<Rightarrow> (r, w', []))"

definition and_then :: "('a, 'w) prog \<Rightarrow> ('a \<Rightarrow> ('b, 'w) prog) \<Rightarrow> ('b, 'w) prog" where
  "and_then m f w =
     (case m w of
        (Inl e, w1, ev1) \<Rightarrow> (Inl e, w1, ev1)
      | (Inr a, w1, ev1) \<Rightarrow> (case f a w1 of (r, w2, ev2) \<Rightarrow> (r, w2, ev1 @ ev2)))"

definition seq :: "(unit, 'w) prog \<Rightarrow> ('b, 'w) prog \<Rightarrow> ('b, 'w) prog" where
  "seq m k = and_then m (\<lambda>_. k)"

fun steps :: "(unit, 'w) prog list \<Rightarrow> (unit, 'w) prog" where
  "steps [] = return ()"
| "steps (m # ms) = seq m (steps ms)"

definition try_catch :: "('a, 'w) prog \<Rightarrow> (exn \<Rightarrow> ('a, 'w) prog) \<Rightarrow> ('a, 'w) prog" where
  "try_catch m handler w =
     (case m w of
        (Inl e, w1, ev1) \<Rightarrow> (case handler e w1 of (r, w2, ev2) \<Rightarrow> (r, w2, ev1 @ ev2))
      | (Inr a, w1, ev1) \<Rightarrow> (Inr a, w1, ev1))"

subsection \<open>Constants and file names\<close>

definition collegeSelector :: string where "collegeSelector = ''#MainContent_DropDownList1''"
definition branchSelector :: string where "branchSelector = ''#MainContent_DropDownList2''"
definition submitButtonSelector :: string where "submitButtonSelector = ''#MainContent_btn_allot''"
definition resultsTableSelector :: string where "resultsTableSelector = ''table.sortable''"

text \<open>\<open>name.replace(/[^a-zA-Z0-9 ]/g, "").replace(/\s+/g, "_")\<close>\<close>

definition is_alnum_or_blank :: "char \<Rightarrow> bool" where
  "is_alnum_or_blank c =
     (let d = (of_char c :: nat) in
      (97 \<le> d \<and> d \<le> 122) \<or> (65 \<le> d \<and> d \<le> 90) \<or> (48 \<le> d \<and> d \<le> 57) \<or> d = 32)"

function replace_space_runs :: "string \<Rightarrow> string" where
  "replace_space_runs [] = []"
| "replace_space_runs (c # cs) =
     (if is_js_space c then CHR ''_'' # replace_space_runs (dropWhile is_js_space cs)
      else c # replace_space_runs cs)"
  by pat_completeness auto
termination
  by (relation "measure length") (auto simp: length_dropWhile_le less_Suc_eq_le)

definition clean_name :: "string \<Rightarrow> string" where
  "clean_name name = replace_space_runs (filter is_alnum_or_blank name)"

subsection \<open>One branch: the body of the inner loop (lines 130-212)\<close>

text \<open>Lines 136-147: select the college again, select the branch, submit, wait.\<close>

definition submitLeaf :: "('w, 'n) env \<Rightarrow> opt \<Rightarrow> opt \<Rightarrow> (unit, 'w) prog" where
  "submitLeaf env college branch =
     steps [await (select env collegeSelector (opt_value college)),
            await (waitForNavigation env),
            await (select env branchSelector (opt_value branch)),
            console Log_ClickingSubmit,
            await (click env submitButtonSelector),
            await (waitForNavigation env),
            console Log_ResultsLoaded]"

text \<open>
  Lines 150-172: wait for the results table, then run the extraction in the page and
  receive its records by value.
\<close>

definition scrapeTable :: "('w, 'n) env \<Rightarrow> ('n jsobject list, 'w) prog" where
  "scrapeTable env =
     seq (console Log_ScrapingTable)
    (seq (await (waitForSelector env resultsTableSelector))
    (and_then (await (query_rows env resultsTableSelector))
       (\<lambda>rows. return (received_records (env_str2num env) (env_json_num env) rows))))"

text \<open>Lines 173-189: write the file when there is at least one record.\<close>

definition saveResults :: "('w, 'n) env \<Rightarrow> string \<Rightarrow> opt \<Rightarrow> 'n jsobject list \<Rightarrow> (unit, 'w) prog" where
  "saveResults env collegeDir branch tableData' =
     seq (console (Log_Scraped (length tableData') (opt_name branch)))
       (if length tableData' > 0 then
          (let csvData = convertToCsv (env_num2str env) (Some tableData');
               branchFileName = clean_name (opt_name branch) @ ''.csv'';
               outputPath = resolve env collegeDir branchFileName
           in steps [console (WriteFile outputPath csvData),
                     await (writeFileSync env outputPath csvData),
                     console (Log_DataSaved outputPath)])
        else console (Log_NoData (opt_name branch)))"

text \<open>\<open>newPage.goBack()\<close> followed by \<open>newPage.waitForNavigation\<close> (lines 193-194, 204-205).\<close>

definition returnToForm :: "('w, 'n) env \<Rightarrow> (unit, 'w) prog" where
  "returnToForm env = seq (await (goBack env)) (await (waitForNavigation env))"

text \<open>The \<open>try\<close> block (lines 131-195).\<close>

definition leaf_try :: "('w, 'n) env \<Rightarrow> opt \<Rightarrow> string \<Rightarrow> opt \<Rightarrow> (unit, 'w) prog" where
  "leaf_try env college collegeDir branch =
     seq (console (Log_Fetching (opt_name branch)))
    (seq (submitLeaf env college branch)
    (and_then (scrapeTable env)
       (\<lambda>tableData'.
          seq (saveResults env collegeDir branch tableData')
         (seq (console Log_GoingBack)
         (seq (returnToForm env)
              (console Log_Returned))))))"

text \<open>
  The \<open>catch\<close> block (lines 197-212). The loop body ends normally (\<open>Next\<close>) or with
  \<open>break\<close> (\<open>Break\<close>).
\<close>

datatype ctl = Next | Break

definition leaf_catch :: "('w, 'n) env \<Rightarrow> opt \<Rightarrow> opt \<Rightarrow> exn \<Rightarrow> (ctl, 'w) prog" where
  "leaf_catch env college branch error =
     seq (console (Err_CouldNotFetch (opt_name college) (opt_name branch) (message error)))
    (seq (console Log_AttemptingGoBack)
    (try_catch
       (seq (returnToForm env) (seq (console Log_ReturnedAfterError) (return Next)))
       (\<lambda>goBackError. seq (console (Err_FailedToGoBack (message goBackError))) (return Break))))"

definition leaf :: "('w, 'n) env \<Rightarrow> opt \<Rightarrow> string \<Rightarrow> opt \<Rightarrow> (ctl, 'w) prog" where
  "leaf env college collegeDir branch =
     try_catch (seq (leaf_try env college collegeDir branch) (return Next))
       (leaf_catch env college branch)"

subsection \<open>The two loops (lines 101-214) and the function\<close>

fun for_branches :: "('w, 'n) env \<Rightarrow> opt \<Rightarrow> string \<Rightarrow> opt list \<Rightarrow> (unit, 'w) prog" where
  "for_branches env college collegeDir [] = return ()"
| "for_branches env college collegeDir (branch # rest) =
     and_then (leaf env college collegeDir branch)
       (\<lambda>c. case c of Next \<Rightarrow> for_branches env college collegeDir rest | Break \<Rightarrow> return ())"

text \<open>\<open>if (!fs.existsSync(dir)) { fs.mkdirSync(dir, { recursive: true }); console.log(...) }\<close>\<close>

definition ensure_dir :: "('w, 'n) env \<Rightarrow> string \<Rightarrow> event \<Rightarrow> (unit, 'w) prog" where
  "ensure_dir env dir created w =
     (if \<not> existsSync env dir w then seq (await (mkdirSync env dir)) (console created) w
      else return () w)"

text \<open>
  The body of the outer loop (lines 102-213): first the college's directory, the
  selection of the college and the list of its branches (lines 102-126), then the inner
  loop.
\<close>

definition college_dir :: "('w, 'n) env \<Rightarrow> string \<Rightarrow> opt \<Rightarrow> string" where
  "college_dir env baseOutputFolder college =
     (let collegeFolderName = clean_name (opt_name college)
      in resolve env baseOutputFolder collegeFolderName)"

definition enumerate_branches :: "('w, 'n) env \<Rightarrow> string \<Rightarrow> opt \<Rightarrow> (opt list, 'w) prog" where
  "enumerate_branches env baseOutputFolder college =
     (let collegeDir = college_dir env baseOutputFolder college
      in seq (steps [console (Log_ProcessingCollege (opt_name college) (opt_value college)),
                     ensure_dir env collegeDir (Log_CreatedCollegeDir collegeDir),
                     console (Log_SelectingCollege (opt_value college)),
                     await (select env collegeSelector (opt_value college)),
                     await (waitForNavigation env),
                     console Log_CollegeSelected,
                     console Log_ExtractingBranches,
                     await (waitForSelector env branchSelector)])
        (and_then (await (query_options env branchSelector))
           (\<lambda>options.
              (let branches = branch_options options
               in seq (console (Log_FoundBranches (length branches) (opt_name college)))
                      (return branches)))))"

definition college_body :: "('w, 'n) env \<Rightarrow> string \<Rightarrow> opt \<Rightarrow> (unit, 'w) prog" where
  "college_body env baseOutputFolder college =
     and_then (enumerate_branches env baseOutputFolder college)
       (\<lambda>branches. for_branches env college (college_dir env baseOutputFolder college) branches)"

fun for_colleges :: "('w, 'n) env \<Rightarrow> string \<Rightarrow> opt list \<Rightarrow> (unit, 'w) prog" where
  "for_colleges env baseOutputFolder [] = return ()"
| "for_colleges env baseOutputFolder (college # rest) =
     seq (college_body env baseOutputFolder college) (for_colleges env baseOutputFolder rest)"

definition scrapeAllotments :: "('w, 'n) env \<Rightarrow> (unit, 'w) prog" where
  "scrapeAllotments env =
     seq (steps [await (open_form_page env),
                 console Log_ExtractingColleges,
                 await (waitForSelector env collegeSelector)])
    (and_then (await (query_options env collegeSelector))
       (\<lambda>options.
          (let colleges = college_options options;
               baseOutputFolder = resolve env (dirname env) ''2025 phase 2 data''
           in steps [console (Log_FoundColleges (length colleges)),
                     ensure_dir env baseOutputFolder (Log_CreatedBaseDir baseOutputFolder),
                     for_colleges env baseOutputFolder colleges,
                     console Log_Complete,
                     await (browser_close env),
                     console Log_BrowserClosed])))"

subsection \<open>Reading a run\<close>

text \<open>
  The leaves a run attempted are the branch names of its \<open>Fetching data for branch\<close>
  lines, in order; a recovery fault is a \<open>Failed to go back after error\<close> line; the
  second-level count of a college is the number its \<open>Found n branches\<close> line prints.
\<close>

fun fetching_name :: "event \<Rightarrow> string option" where
  "fetching_name (Log_Fetching n) = Some n"
| "fetching_name _ = None"

fun fetched :: "event list \<Rightarrow> string list" where
  "fetched [] = []"
| "fetched (e # evs) = (case fetching_name e of None \<Rightarrow> fetched evs | Some n \<Rightarrow> n # fetched evs)"

fun is_fault :: "event \<Rightarrow> bool" where
  "is_fault (Err_FailedToGoBack m) = True"
| "is_fault _ = False"

definition faults :: "event list \<Rightarrow> nat" where
  "faults evs = length (filter is_fault evs)"

fun found_count :: "event \<Rightarrow> nat" where
  "found_count (Log_FoundBranches n c) = n"
| "found_count _ = 0"

definition found_total :: "event list \<Rightarrow> nat" where
  "found_total evs = sum_list (map found_count evs)"

subsection \<open>A scripted world\<close>

text \<open>
  For examples: the world is the list of the outcomes of the awaited calls still to
  come, in the order the program makes them. Every directory exists already, and
  \<open>path.resolve\<close> joins with a slash.
\<close>

datatype resp = Ok | Throws string | Options "dom_option list" | Rows "string list list"

fun script_unit :: "(unit, resp list) action" where
  "script_unit [] = (Inr (), [])"
| "script_unit (r # rs) = (case r of Throws m \<Rightarrow> (Inl (Error m), rs) | _ \<Rightarrow> (Inr (), rs))"

fun script_options :: "(dom_option list, resp list) action" where
  "script_options [] = (Inr [], [])"
| "script_options (r # rs) =
     (case r of Throws m \<Rightarrow> (Inl (Error m), rs) | Options os \<Rightarrow> (Inr os, rs) | _ \<Rightarrow> (Inr [], rs))"

fun script_rows :: "(string list list, resp list) action" where
  "script_rows [] = (Inr [], [])"
| "script_rows (r # rs) =
     (case r of Throws m \<Rightarrow> (Inl (Error m), rs) | Rows rows \<Rightarrow> (Inr rows, rs) | _ \<Rightarrow> (Inr [], rs))"

definition script_env :: "(resp list, nat) env" where
  "script_env =
     \<lparr>open_form_page = script_unit,
      select = (\<lambda>selector v. script_unit),
      waitForNavigation = script_unit,
      waitForSelector = (\<lambda>selector. script_unit),
      click = (\<lambda>selector. script_unit),
      goBack = script_unit,
      query_options = (\<lambda>selector. script_options),
      query_rows = (\<lambda>selector. script_rows),
      existsSync = (\<lambda>dir w. True),
      mkdirSync = (\<lambda>dir. script_unit),
      writeFileSync = (\<lambda>file data. script_unit),
      resolve = (\<lambda>dir file. dir @ ''/'' @ file),
      dirname = ''.'',
      browser_close = script_unit,
      env_str2num = dec_str2num,
      env_num2str = dec_num2str,
      env_json_num = Some\<rparr>"

text \<open>Two colleges and three branches for the examples.\<close>

definition college_A :: opt where "college_A = \<lparr>opt_name = ''A'', opt_value = ''a''\<rparr>"
definition college_B :: opt where "college_B = \<lparr>opt_name = ''B'', opt_value = ''b''\<rparr>"
definition branch_X :: opt where "branch_X = \<lparr>opt_name = ''X'', opt_value = ''x''\<rparr>"
definition branch_Y :: opt where "branch_Y = \<lparr>opt_name = ''Y'', opt_value = ''y''\<rparr>"
definition branch_Z :: opt where "branch_Z = \<lparr>opt_name = ''Z'', opt_value = ''z''\<rparr>"

text \<open>
  The end-to-end scenario of the spec, started at the outer loop: college A lists a
  placeholder and the branches X and Y, college B lists Z; (A, X) shows two records,
  (A, Y) a table with only its header, and the submit click of (B, Z) throws.
\<close>

definition scenario :: "resp list" where
  "scenario =
     [Ok, Ok, Ok, Options [\<lparr>option_text = ''--Select--'', option_value = ''0''\<rparr>,
                           \<lparr>option_text = ''X'', option_value = ''x''\<rparr>,
                           \<lparr>option_text = ''Y'', option_value = ''y''\<rparr>],
      Ok, Ok, Ok, Ok, Ok, Ok, Rows [[''h''], [''1'', ''HT1'', ''10''], [''2'', ''HT2'', ''20'']], Ok, Ok, Ok,
      Ok, Ok, Ok, Ok, Ok, Ok, Rows [[''h'']], Ok, Ok,
      Ok, Ok, Ok, Options [\<lparr>option_text = ''Z'', option_value = ''z''\<rparr>],
      Ok, Ok, Ok, Throws ''net'', Ok, Ok]"

text \<open>
  Branch X shows one record and its file is written; then \<open>goBack\<close> throws in the \<open>try\<close>
  block and throws again in the \<open>catch\<close> block.
\<close>

definition stuck_script :: "resp list" where
  "stuck_script =
     [Ok, Ok, Ok, Ok, Ok, Ok, Rows [[''h''], [''1'', ''HT1'', ''10'']], Ok, Throws ''timeout'',
      Throws ''stuck'', Ok, Ok, Ok, Ok]"

subsection \<open>Sets of events\<close>

text \<open>
  \<open>emits E m\<close>: whatever the world, \<open>m\<close> emits only events of \<open>E\<close>. The events of
  \<open>plain\<close> are no attempt of a leaf, no recovery fault and no count of branches.
  \<open>college_accounted college seg\<close> reads the events \<open>seg\<close> of one completed pass of the
  outer loop: they start with the college's line, the leaves attempted are at most the
  branches found, there is at most one recovery fault, and without a fault the leaves
  attempted are as many as the branches found.
\<close>

definition emits :: "event set \<Rightarrow> ('a, 'w) prog \<Rightarrow> bool" where
  "emits E m = (\<forall>w. set (events (m w)) \<subseteq> E)"

definition plain :: "event set" where
  "plain = {e. fetching_name e = None \<and> \<not> is_fault e \<and> found_count e = 0}"

definition college_accounted :: "opt \<Rightarrow> event list \<Rightarrow> bool" where
  "college_accounted college seg =
     (take 1 seg = [Log_ProcessingCollege (opt_name college) (opt_value college)]
      \<and> length (fetched seg) \<le> found_total seg
      \<and> faults seg \<le> 1
      \<and> (faults seg = 0 \<longrightarrow> length (fetched seg) = found_total seg))"

section \<open>Typed records and the shape of a CSV text\<close>

text \<open>
  A typing says of every field name whether its values are text or numbers. A record
  conforms to it when its field names are distinct and free of double quotes and every
  value is a string or a number as the typing says for its field (so none is \<open>null\<close>
  or \<open>undefined\<close>). A sequence of records is uniform when all of them list the fields of
  the first, in the same order. \<open>allotment_typing\<close> is the typing of the records of the
  results table.
\<close>

datatype kind = KText | KNumber

fun has_kind :: "kind \<Rightarrow> 'n jsval \<Rightarrow> bool" where
  "has_kind KText (JString s) = True"
| "has_kind KNumber (JNumber n) = True"
| "has_kind _ _ = False"

definition conforms :: "(string \<Rightarrow> kind) \<Rightarrow> 'n jsobject \<Rightarrow> bool" where
  "conforms ty r = (distinct (keys r) \<and> list_all (\<lambda>(k, v). DQ \<notin> set k \<and> has_kind (ty k) v) r)"

definition uniform :: "'n jsobject list \<Rightarrow> bool" where
  "uniform R = list_all (\<lambda>r. keys r = keys (hd R)) R"

definition allotment_typing :: "string \<Rightarrow> kind" where
  "allotment_typing k = (if k = ''sno'' \<or> k = ''rank'' then KNumber else KText)"

text \<open>
  What is asked of the printing of numbers: different numbers print differently, none
  prints as NaN, and no print holds a comma or a newline.
\<close>

definition plain_numbers :: "('n \<Rightarrow> string) \<Rightarrow> bool" where
  "plain_numbers num2str =
     (inj num2str \<and> (\<forall>x. num2str x \<noteq> ''NaN'' \<and> COMMA \<notin> set (num2str x) \<and> NL \<notin> set (num2str x)))"

text \<open>
  For reading a CSV text back: a text that may follow a field (nothing, or a comma or
  newline first), a text that may follow a line, a text without comma and newline, and
  two values of one kind.
\<close>

definition ends_field :: "string \<Rightarrow> bool" where
  "ends_field t = (case t of [] \<Rightarrow> True | c # cs \<Rightarrow> c = COMMA \<or> c = NL)"

definition ends_line :: "string \<Rightarrow> bool" where
  "ends_line t = (case t of [] \<Rightarrow> True | c # cs \<Rightarrow> c = NL)"

definition no_sep :: "string \<Rightarrow> bool" where
  "no_sep s = (COMMA \<notin> set s \<and> NL \<notin> set s)"

definition same_kind :: "'n jsval \<Rightarrow> 'n jsval \<Rightarrow> bool" where
  "same_kind v v' = (\<exists>k. has_kind k v \<and> has_kind k v')"

section \<open>Properties of the serializer and the extractor\<close>

lemma replace_quotes_concat:
  "replace_quotes s = concat (map (\<lambda>c. if c = DQ then [DQ, DQ] else [c]) s)"
  by (induction s) auto

lemma set_replace_quotes: "set (replace_quotes s) = set s"
  by (induction s) auto

lemma csv_field_string:
  "csv_field num2str (JString s) =
     (if COMMA \<in> set s \<or> NL \<in> set s then [DQ] @ replace_quotes s @ [DQ] else replace_quotes s)"
  by (simp add: csv_field_def csv_value_def join_item_def includes_char_def Let_def
      set_replace_quotes)

lemma csv_field_others:
  "csv_field num2str JNull = []" "csv_field num2str JUndefined = []"
  "csv_field num2str (JNumber n) = NumberToString num2str n"
  by (simp_all add: csv_field_def csv_value_def join_item_def)

lemma join_Cons: "join sep (x # xs) = x @ concat (map (\<lambda>l. sep @ l) xs)"
  by (induction xs arbitrary: x) auto

lemma foldl_push: "foldl (\<lambda>rows row. rows @ [f row]) acc xs = acc @ map f xs"
  by (induction xs arbitrary: acc) auto

lemma convertToCsv_Cons:
  "convertToCsv num2str (Some (r # rs)) =
     csv_header (keys r) @ concat (map (\<lambda>row. NL # csv_row num2str (keys r) row) (r # rs))"
  by (simp add: convertToCsv_def Let_def foldl_push join_Cons comp_def)

text \<open>
  Claim C7. In the text \<open>convertToCsv\<close> returns, the first line is the quoted field
  names of the first record and every record is a line of its fields under these names,
  joined by commas. A string field is written with every double quote doubled, and it is
  put between double quotes exactly when it contains a comma or a newline. The value
  \<open>He said "hi", bye\<close> is written \<open>"He said ""hi"", bye"\<close>.
\<close>

theorem serializer_string_escaping:
  "csv_field num2str (JString s) =
     (if COMMA \<in> set s \<or> NL \<in> set s then [DQ] @ replace_quotes s @ [DQ] else replace_quotes s)
   \<and> replace_quotes s = concat (map (\<lambda>c. if c = DQ then [DQ, DQ] else [c]) s)
   \<and> join sep [] = [] \<and> join sep (x # xs) = x @ concat (map (\<lambda>l. sep @ l) xs)
   \<and> convertToCsv num2str (Some (r # rs)) =
       join [COMMA] (map (\<lambda>header. [DQ] @ header @ [DQ]) (keys r))
       @ concat (map (\<lambda>row. NL # join [COMMA]
                           (map (\<lambda>header. csv_field num2str (get_prop row header)) (keys r)))
                  (r # rs))
   \<and> convertToCsv num2str (Some [[(h, JString s)]]) =
       [DQ] @ h @ [DQ] @ [NL]
       @ (if COMMA \<in> set s \<or> NL \<in> set s then [DQ] @ replace_quotes s @ [DQ] else replace_quotes s)
   \<and> (h1 \<noteq> h2 \<longrightarrow>
        convertToCsv num2str (Some [[(h1, JString s1), (h2, JString s2)]]) =
          [DQ] @ h1 @ [DQ] @ [COMMA] @ [DQ] @ h2 @ [DQ] @ [NL]
          @ (if COMMA \<in> set s1 \<or> NL \<in> set s1 then [DQ] @ replace_quotes s1 @ [DQ]
             else replace_quotes s1)
          @ [COMMA]
          @ (if COMMA \<in> set s2 \<or> NL \<in> set s2 then [DQ] @ replace_quotes s2 @ [DQ]
             else replace_quotes s2))
   \<and> csv_field num2str (JString ''He said \"hi\", bye'') = ''\"He said \"\"hi\"\", bye\"''
   \<and> convertToCsv num2str (Some [[(''remark'', JString ''He said \"hi\", bye'')]]) =
       ''\"remark\"'' @ [NL] @ ''\"He said \"\"hi\"\", bye\"''"
proof -
  have c: "convertToCsv num2str (Some (r # rs)) =
       join [COMMA] (map (\<lambda>header. [DQ] @ header @ [DQ]) (keys r))
       @ concat (map (\<lambda>row. NL # join [COMMA]
                           (map (\<lambda>header. csv_field num2str (get_prop row header)) (keys r)))
                  (r # rs))" for r rs
    using convertToCsv_Cons [of num2str r rs] by (simp add: csv_header_def csv_row_def)
  have one: "convertToCsv num2str (Some [[(h, JString s)]]) =
       [DQ] @ h @ [DQ] @ [NL]
       @ (if COMMA \<in> set s \<or> NL \<in> set s then [DQ] @ replace_quotes s @ [DQ] else replace_quotes s)"
    for h s
    unfolding c by (simp add: keys_def get_prop_def csv_field_string)
  have two: "h1 \<noteq> h2 \<longrightarrow>
        convertToCsv num2str (Some [[(h1, JString s1), (h2, JString s2)]]) =
          [DQ] @ h1 @ [DQ] @ [COMMA] @ [DQ] @ h2 @ [DQ] @ [NL]
          @ (if COMMA \<in> set s1 \<or> NL \<in> set s1 then [DQ] @ replace_quotes s1 @ [DQ]
             else replace_quotes s1)
          @ [COMMA]
          @ (if COMMA \<in> set s2 \<or> NL \<in> set s2 then [DQ] @ replace_quotes s2 @ [DQ]
             else replace_quotes s2)"
    unfolding c by (simp add: keys_def get_prop_def csv_field_string)
  have ex: "csv_field num2str (JString ''He said \"hi\", bye'') = ''\"He said \"\"hi\"\", bye\"''"
    by (simp add: csv_field_string)
  have ex2: "convertToCsv num2str (Some [[(''remark'', JString ''He said \"hi\", bye'')]]) =
       ''\"remark\"'' @ [NL] @ ''\"He said \"\"hi\"\", bye\"''"
    unfolding one by simp
  show ?thesis
    using c [of r rs] one [of h s] two ex ex2
    by (simp only: csv_field_string replace_quotes_concat [symmetric] join_Cons join.simps
        simp_thms)
qed

text \<open>A quote alone is doubled without wrapping; a comma or a newline wraps.\<close>

theorem serializer_string_escaping_witness:
  "convertToCsv dec_num2str (Some [[(''a'', JString ''x\"y''), (''b'', JString ''p,q'')]]) =
     ''\"a\",\"b\"'' @ [NL] @ ''x\"\"y,\"p,q\"''
   \<and> convertToCsv dec_num2str (Some [[(''a'', JString [CHR ''u'', NL, CHR ''v''])]]) =
     ''\"a\"'' @ [NL] @ [DQ, CHR ''u'', NL, CHR ''v'', DQ]"
  using serializer_string_escaping [where num2str = dec_num2str and ?h1.0 = "''a''" and ?h2.0 = "''b''"
      and ?s1.0 = "''x\"y''" and ?s2.0 = "''p,q''" and h = "''a''" and s = "[CHR ''u'', NL, CHR ''v'']"
      and r = "[]" and rs = "[]" and sep = "[]" and x = "[]" and xs = "[]"]
  by simp

lemma extract_loop_eq:
  "i \<le> length rows \<Longrightarrow>
   extract_loop str2num rows i records =
     records @ map (make_record str2num) (filter (\<lambda>cells. 1 < length cells) (drop i rows))"
proof (induction str2num rows i records rule: extract_loop.induct)
  case (1 str2num rows i records)
  show ?case
  proof (cases "i < length rows")
    case True
    then have d: "drop i rows = rows ! i # drop (Suc i) rows"
      by (simp add: Cons_nth_drop_Suc)
    from True 1 show ?thesis
      by (subst extract_loop.simps) (simp add: d Let_def)
  next
    case False
    with 1 show ?thesis by (subst extract_loop.simps) simp
  qed
qed

lemma tableData_eq:
  "tableData str2num rows =
     map (make_record str2num) (filter (\<lambda>cells. 1 < length cells) (drop 1 rows))"
proof (cases rows)
  case Nil
  then show ?thesis
    unfolding tableData_def by (subst extract_loop.simps) simp
next
  case (Cons header body)
  then show ?thesis
    unfolding tableData_def by (subst extract_loop_eq) simp_all
qed

text \<open>
  Claim C6. For a table of a header row and the data rows \<open>body\<close>, the extractor skips
  the header and returns the records of exactly the data rows with more than one cell,
  in the order of the rows; when every data row has at least two cells there are as
  many records as data rows.
\<close>

theorem tableData_rows:
  "tableData str2num (header # body) =
     map (make_record str2num) (filter (\<lambda>cells. 1 < length cells) body)
   \<and> ((\<forall>cells \<in> set body. 2 \<le> length cells) \<longrightarrow>
        length (tableData str2num (header # body)) = length body)"
proof -
  have "(\<forall>cells \<in> set body. 2 \<le> length cells) \<Longrightarrow> filter (\<lambda>cells. 1 < length cells) body = body"
    by (rule filter_True) auto
  then show ?thesis by (auto simp: tableData_eq)
qed

text \<open>Two data rows of at least two cells; a one-cell row between two others is left out.\<close>

theorem tableData_rows_witness:
  "length (tableData dec_str2num [[''h''], [''1'', ''HT01''], [''2'', ''HT02'', ''17'']]) = 2
   \<and> tableData dec_str2num [[''h'', ''k''], [''1'', ''HT01''], [''only''], [''2'', ''HT02'']] =
       [make_record dec_str2num [''1'', ''HT01''], make_record dec_str2num [''2'', ''HT02'']]"
  using tableData_rows [of dec_str2num "[''h'']" "[[''1'', ''HT01''], [''2'', ''HT02'', ''17'']]"]
    tableData_rows [of dec_str2num "[''h'', ''k'']" "[[''1'', ''HT01''], [''only''], [''2'', ''HT02'']]"]
  by simp

text \<open>
  Claim C9. The list of colleges is the list of the options of the first dropdown
  without those whose value is the empty string, and the list of branches is the list of
  the options of the second dropdown without those whose value is \<open>0\<close>; each list keeps
  the order of its dropdown, and neither rule is applied to the other dropdown.
\<close>

theorem dropdown_filters:
  "college_options options = map to_opt (filter (\<lambda>o'. option_value o' \<noteq> []) options)
   \<and> branch_options options = map to_opt (filter (\<lambda>o'. option_value o' \<noteq> ''0'') options)
   \<and> (to_opt option \<in> set (college_options options)
        \<longleftrightarrow> option \<in> set options \<and> option_value option \<noteq> [])
   \<and> (to_opt option \<in> set (branch_options options)
        \<longleftrightarrow> option \<in> set options \<and> option_value option \<noteq> ''0'')"
proof -
  have inj: "\<And>a b. to_opt a = to_opt b \<Longrightarrow> a = b"
    by (simp add: to_opt_def)
  have c: "college_options options = map to_opt (filter (\<lambda>o'. option_value o' \<noteq> []) options)"
    by (simp add: college_options_def filter_map comp_def to_opt_def)
  have b: "branch_options options = map to_opt (filter (\<lambda>o'. option_value o' \<noteq> ''0'') options)"
    by (simp add: branch_options_def filter_map comp_def to_opt_def)
  show ?thesis
    unfolding c b using inj by auto
qed

text \<open>The value \<open>0\<close> stays in the list of colleges, the empty value in the list of branches.\<close>

theorem dropdown_filters_witness:
  "college_options [\<lparr>option_text = ''--Select--'', option_value = []\<rparr>,
                    \<lparr>option_text = ''Zero'', option_value = ''0''\<rparr>,
                    \<lparr>option_text = ''JNTU'', option_value = ''JNTH''\<rparr>]
     = [\<lparr>opt_name = ''Zero'', opt_value = ''0''\<rparr>, \<lparr>opt_name = ''JNTU'', opt_value = ''JNTH''\<rparr>]
   \<and> branch_options [\<lparr>option_text = ''Blank'', option_value = []\<rparr>,
                     \<lparr>option_text = ''--Select--'', option_value = ''0''\<rparr>,
                     \<lparr>option_text = ''CSE'', option_value = ''CSE''\<rparr>]
     = [\<lparr>opt_name = ''Blank'', opt_value = []\<rparr>, \<lparr>opt_name = ''CSE'', opt_value = ''CSE''\<rparr>]"
  using dropdown_filters [of "[\<lparr>option_text = ''--Select--'', option_value = []\<rparr>,
                    \<lparr>option_text = ''Zero'', option_value = ''0''\<rparr>,
                    \<lparr>option_text = ''JNTU'', option_value = ''JNTH''\<rparr>]"]
    dropdown_filters [of "[\<lparr>option_text = ''Blank'', option_value = []\<rparr>,
                     \<lparr>option_text = ''--Select--'', option_value = ''0''\<rparr>,
                     \<lparr>option_text = ''CSE'', option_value = ''CSE''\<rparr>]"]
  by (simp add: to_opt_def)









section \<open>Properties of the crawl\<close>


lemma out_simps [simp]:
  "result (r, w, ev) = r" "world_after (r, w, ev) = w" "events (r, w, ev) = ev"
  by (simp_all add: result_def world_after_def events_def)

lemma fetched_append [simp]: "fetched (xs @ ys) = fetched xs @ fetched ys"
  by (induction xs) (auto split: option.splits)

lemma faults_simps [simp]:
  "faults [] = 0"
  "faults (e # evs) = (if is_fault e then Suc (faults evs) else faults evs)"
  "faults (xs @ ys) = faults xs + faults ys"
  by (simp_all add: faults_def)

lemma found_total_simps [simp]:
  "found_total [] = 0"
  "found_total (e # evs) = found_count e + found_total evs"
  "found_total (xs @ ys) = found_total xs + found_total ys"
  by (simp_all add: found_total_def)

lemma emitsD: "emits E m \<Longrightarrow> m w = (r, w', evs) \<Longrightarrow> set evs \<subseteq> E"
proof -
  assume e: "emits E m" and mw: "m w = (r, w', evs)"
  from e have "set (events (m w)) \<subseteq> E" unfolding emits_def by blast
  with mw show ?thesis by simp
qed

lemma emits_return: "emits E (return a)"
  by (simp add: emits_def return_def)

lemma emits_console: "e \<in> E \<Longrightarrow> emits E (console e)"
  by (simp add: emits_def console_def)

lemma emits_await: "emits E (await act)"
  by (simp add: emits_def await_def split: prod.splits)

lemma emits_and_then: "emits E m \<Longrightarrow> (\<And>a. emits E (f a)) \<Longrightarrow> emits E (and_then m f)"
proof -
  assume m: "emits E m" and f: "\<And>a. emits E (f a)"
  show ?thesis
    unfolding emits_def
  proof
    fix w
    obtain r w1 ev1 where mw: "m w = (r, w1, ev1)" by (cases "m w") auto
    have e1: "set ev1 \<subseteq> E" using emitsD [OF m mw] .
    show "set (events (and_then m f w)) \<subseteq> E"
    proof (cases r)
      case (Inl e)
      with mw e1 show ?thesis by (simp add: and_then_def)
    next
      case (Inr a)
      obtain r2 w2 ev2 where fw: "f a w1 = (r2, w2, ev2)" by (cases "f a w1") auto
      have "set ev2 \<subseteq> E" using emitsD [OF f fw] .
      with mw e1 Inr fw show ?thesis by (simp add: and_then_def)
    qed
  qed
qed

lemma emits_seq: "emits E m \<Longrightarrow> emits E k \<Longrightarrow> emits E (seq m k)"
  by (simp add: seq_def emits_and_then)

lemma emits_steps: "(\<And>m. m \<in> set ms \<Longrightarrow> emits E m) \<Longrightarrow> emits E (steps ms)"
  by (induction ms) (auto intro: emits_seq emits_return)

lemma emits_ensure_dir: "created \<in> E \<Longrightarrow> emits E (ensure_dir env dir created)"
proof -
  assume c: "created \<in> E"
  have "emits E (seq (await (mkdirSync env dir)) (console created))"
    by (intro emits_seq emits_await emits_console c)
  then show ?thesis
    by (auto simp: emits_def ensure_dir_def return_def)
qed

lemmas emits_intros = emits_return emits_console emits_await emits_and_then emits_seq

lemma emits_submitLeaf: "emits {Log_ClickingSubmit, Log_ResultsLoaded} (submitLeaf env college branch)"
  unfolding submitLeaf_def by (rule emits_steps) (auto intro: emits_intros)

lemma emits_scrapeTable: "emits {Log_ScrapingTable} (scrapeTable env)"
  unfolding scrapeTable_def by (intro emits_intros) simp

lemma returnToForm_events [simp]: "events (returnToForm env w) = []"
  by (simp add: returnToForm_def seq_def and_then_def await_def events_def split: prod.splits sum.splits)

lemma returnToForm_cases:
  obtains (ok) w2 where "returnToForm env w = (Inr (), w2, [])"
        | (fail) e2 w2 where "returnToForm env w = (Inl e2, w2, [])"
proof -
  have "events (returnToForm env w) = []" by simp
  then show ?thesis
    using ok fail
    by (cases "returnToForm env w"; cases "fst (returnToForm env w)") (auto simp: events_def)
qed

lemma saveResults_empty:
  "saveResults env collegeDir branch [] w =
     (Inr (), w, [Log_Scraped 0 (opt_name branch), Log_NoData (opt_name branch)])"
  by (simp add: saveResults_def seq_def and_then_def console_def)

lemma saveResults_nonempty:
  "tableData' \<noteq> [] \<Longrightarrow>
   saveResults env collegeDir branch tableData' w =
     (case writeFileSync env (resolve env collegeDir (clean_name (opt_name branch) @ ''.csv''))
             (convertToCsv (env_num2str env) (Some tableData')) w of
        (Inl e, w') \<Rightarrow>
          (Inl e, w', [Log_Scraped (length tableData') (opt_name branch),
                       WriteFile (resolve env collegeDir (clean_name (opt_name branch) @ ''.csv''))
                         (convertToCsv (env_num2str env) (Some tableData'))])
      | (Inr u, w') \<Rightarrow>
          (Inr (), w', [Log_Scraped (length tableData') (opt_name branch),
                        WriteFile (resolve env collegeDir (clean_name (opt_name branch) @ ''.csv''))
                          (convertToCsv (env_num2str env) (Some tableData')),
                        Log_DataSaved (resolve env collegeDir (clean_name (opt_name branch) @ ''.csv''))]))"
  by (simp add: saveResults_def seq_def and_then_def console_def await_def return_def Let_def
      split: prod.splits sum.splits)

lemma leaf_catch_unfold:
  "leaf_catch env college branch e w =
     (case returnToForm env w of
        (Inr u, w2, ev2) \<Rightarrow>
          (Inr Next, w2, [Err_CouldNotFetch (opt_name college) (opt_name branch) (message e),
                          Log_AttemptingGoBack, Log_ReturnedAfterError])
      | (Inl e2, w2, ev2) \<Rightarrow>
          (Inr Break, w2, [Err_CouldNotFetch (opt_name college) (opt_name branch) (message e),
                           Log_AttemptingGoBack, Err_FailedToGoBack (message e2)]))"
  by (cases rule: returnToForm_cases [of env w])
     (simp_all add: leaf_catch_def seq_def and_then_def try_catch_def console_def return_def)

lemma leaf_unfold:
  "leaf env college collegeDir branch w =
     (case submitLeaf env college branch w of
        (Inl e, w1, ev1) \<Rightarrow>
          (case leaf_catch env college branch e w1 of
             (r, w', ev) \<Rightarrow> (r, w', Log_Fetching (opt_name branch) # ev1 @ ev))
      | (Inr u, w1, ev1) \<Rightarrow>
          (case scrapeTable env w1 of
             (Inl e, w2, ev2) \<Rightarrow>
               (case leaf_catch env college branch e w2 of
                  (r, w', ev) \<Rightarrow> (r, w', Log_Fetching (opt_name branch) # ev1 @ ev2 @ ev))
           | (Inr td, w2, ev2) \<Rightarrow>
               (case saveResults env collegeDir branch td w2 of
                  (Inl e, w3, ev3) \<Rightarrow>
                    (case leaf_catch env college branch e w3 of
                       (r, w', ev) \<Rightarrow> (r, w', Log_Fetching (opt_name branch) # ev1 @ ev2 @ ev3 @ ev))
                | (Inr u, w3, ev3) \<Rightarrow>
                    (case returnToForm env w3 of
                       (Inl e, w4, ev4) \<Rightarrow>
                         (case leaf_catch env college branch e w4 of
                            (r, w', ev) \<Rightarrow>
                              (r, w', Log_Fetching (opt_name branch) # ev1 @ ev2 @ ev3 @ Log_GoingBack # ev))
                     | (Inr u, w4, ev4) \<Rightarrow>
                         (Inr Next, w4,
                          Log_Fetching (opt_name branch) # ev1 @ ev2 @ ev3 @ [Log_GoingBack, Log_Returned])))))"
proof (cases "submitLeaf env college branch w")
  case s: (fields r1 w1 ev1)
  show ?thesis
  proof (cases r1)
    case (Inl e)
    with s show ?thesis
      by (simp add: leaf_def leaf_try_def seq_def and_then_def try_catch_def console_def return_def
          split: prod.splits)
  next
    case (Inr u)
    show ?thesis
    proof (cases "scrapeTable env w1")
      case t: (fields r2 w2 ev2)
      show ?thesis
      proof (cases r2)
        case (Inl e)
        with s t Inr show ?thesis
          by (simp add: leaf_def leaf_try_def seq_def and_then_def try_catch_def console_def return_def
              split: prod.splits)
      next
        case td: (Inr td)
        show ?thesis
        proof (cases "saveResults env collegeDir branch td w2")
          case v: (fields r3 w3 ev3)
          show ?thesis
          proof (cases r3)
            case (Inl e)
            with s t v Inr td show ?thesis
              by (simp add: leaf_def leaf_try_def seq_def and_then_def try_catch_def console_def return_def
                  split: prod.splits)
          next
            case u3: (Inr u3)
            show ?thesis
              using s t v Inr td u3
              by (cases rule: returnToForm_cases [of env w3])
                 (simp_all add: leaf_def leaf_try_def seq_def and_then_def try_catch_def console_def
                    return_def split: prod.splits)
          qed
        qed
      qed
    qed
  qed
qed

lemma plain_list: "set evs \<subseteq> plain \<Longrightarrow> fetched evs = [] \<and> faults evs = 0 \<and> found_total evs = 0"
  by (induction evs) (auto simp: plain_def)

lemma emits_saveResults:
  "emits plain (saveResults env collegeDir branch td)"
  unfolding saveResults_def Let_def
  by (auto intro!: emits_seq emits_console emits_steps emits_await emits_return simp: plain_def)

lemma leaf_shape:
  "\<exists>w' pre. set pre \<subseteq> plain \<and>
     (leaf env college collegeDir branch w = (Inr Next, w', Log_Fetching (opt_name branch) # pre)
      \<or> (\<exists>m. leaf env college collegeDir branch w =
               (Inr Break, w', Log_Fetching (opt_name branch) # pre @ [Err_FailedToGoBack m])))"
proof -
  have catch: "\<And>e w0 pre0. set pre0 \<subseteq> plain \<Longrightarrow>
     \<exists>w' pre. set pre \<subseteq> plain \<and>
       ((case leaf_catch env college branch e w0 of
           (r, w', ev) \<Rightarrow> (r, w', Log_Fetching (opt_name branch) # pre0 @ ev))
          = (Inr Next, w', Log_Fetching (opt_name branch) # pre)
        \<or> (\<exists>m. (case leaf_catch env college branch e w0 of
           (r, w', ev) \<Rightarrow> (r, w', Log_Fetching (opt_name branch) # pre0 @ ev))
          = (Inr Break, w', Log_Fetching (opt_name branch) # pre @ [Err_FailedToGoBack m])))"
  proof -
    fix e w0 pre0 assume p: "set pre0 \<subseteq> plain"
    show "\<exists>w' pre. set pre \<subseteq> plain \<and>
       ((case leaf_catch env college branch e w0 of
           (r, w', ev) \<Rightarrow> (r, w', Log_Fetching (opt_name branch) # pre0 @ ev))
          = (Inr Next, w', Log_Fetching (opt_name branch) # pre)
        \<or> (\<exists>m. (case leaf_catch env college branch e w0 of
           (r, w', ev) \<Rightarrow> (r, w', Log_Fetching (opt_name branch) # pre0 @ ev))
          = (Inr Break, w', Log_Fetching (opt_name branch) # pre @ [Err_FailedToGoBack m])))"
    proof (cases rule: returnToForm_cases [of env w0])
      case (ok w2)
      then show ?thesis
        using p
        by (intro exI [of _ w2] exI [of _ "pre0 @ [Err_CouldNotFetch (opt_name college) (opt_name branch) (message e),
                          Log_AttemptingGoBack, Log_ReturnedAfterError]"])
           (simp add: leaf_catch_unfold plain_def subset_iff)
    next
      case (fail e2 w2)
      then show ?thesis
        using p
        by (intro exI [of _ w2] exI [of _ "pre0 @ [Err_CouldNotFetch (opt_name college) (opt_name branch) (message e),
                          Log_AttemptingGoBack]"])
           (simp add: leaf_catch_unfold plain_def subset_iff)
    qed
  qed
  obtain r1 w1 ev1 where s: "submitLeaf env college branch w = (r1, w1, ev1)"
    by (cases "submitLeaf env college branch w") auto
  have p1: "set ev1 \<subseteq> plain"
    using emitsD [OF emits_submitLeaf s] by (auto simp: plain_def)
  show ?thesis
  proof (cases r1)
    case (Inl e)
    with s catch [OF p1, of e w1] show ?thesis by (simp add: leaf_unfold)
  next
    case (Inr u)
    obtain r2 w2 ev2 where t: "scrapeTable env w1 = (r2, w2, ev2)"
      by (cases "scrapeTable env w1") auto
    have p2: "set (ev1 @ ev2) \<subseteq> plain"
      using p1 emitsD [OF emits_scrapeTable t] by (auto simp: plain_def)
    show ?thesis
    proof (cases r2)
      case (Inl e)
      with s t Inr catch [OF p2, of e w2] show ?thesis by (simp add: leaf_unfold)
    next
      case td: (Inr td)
      obtain r3 w3 ev3 where v: "saveResults env collegeDir branch td w2 = (r3, w3, ev3)"
        by (cases "saveResults env collegeDir branch td w2") auto
      have p3: "set (ev1 @ ev2 @ ev3) \<subseteq> plain"
        using p2 emitsD [OF emits_saveResults v] by auto
      show ?thesis
      proof (cases r3)
        case (Inl e)
        with s t v Inr td catch [OF p3, of e w3] show ?thesis by (simp add: leaf_unfold)
      next
        case u3: (Inr u3)
        have p4: "set (ev1 @ ev2 @ ev3 @ [Log_GoingBack]) \<subseteq> plain"
          using p3 by (auto simp: plain_def)
        show ?thesis
        proof (cases rule: returnToForm_cases [of env w3])
          case (ok w4)
          with s t v Inr td u3 show ?thesis
            using p3
            by (intro exI [of _ w4] exI [of _ "ev1 @ ev2 @ ev3 @ [Log_GoingBack, Log_Returned]"])
               (simp add: leaf_unfold plain_def subset_iff)
        next
          case (fail e4 w4)
          with s t v Inr td u3 catch [OF p4, of e4 w4] show ?thesis by (simp add: leaf_unfold)
        qed
      qed
    qed
  qed
qed


lemma and_then_Inl: "m w = (Inl e, w1, ev1) \<Longrightarrow> and_then m f w = (Inl e, w1, ev1)"
  by (simp add: and_then_def)

lemma and_then_Inr:
  "m w = (Inr a, w1, ev1) \<Longrightarrow> and_then m f w = (case f a w1 of (r, w2, ev2) \<Rightarrow> (r, w2, ev1 @ ev2))"
  by (simp add: and_then_def)

lemma for_branches_shape:
  "\<exists>w' evs k. for_branches env college dir bs w = (Inr (), w', evs) \<and> k \<le> length bs
      \<and> fetched evs = map opt_name (take k bs) \<and> found_total evs = 0 \<and> faults evs \<le> 1
      \<and> (faults evs = 0 \<longrightarrow> k = length bs)"
proof (induction bs arbitrary: w)
  case Nil
  show ?case by (simp add: return_def)
next
  case (Cons b bs)
  obtain w1 pre where pre: "set pre \<subseteq> plain"
    and l: "leaf env college dir b w = (Inr Next, w1, Log_Fetching (opt_name b) # pre)
      \<or> (\<exists>m. leaf env college dir b w =
               (Inr Break, w1, Log_Fetching (opt_name b) # pre @ [Err_FailedToGoBack m]))"
    using leaf_shape [of env college dir b w] by blast
  note q = plain_list [OF pre]
  from l show ?case
  proof
    assume n: "leaf env college dir b w = (Inr Next, w1, Log_Fetching (opt_name b) # pre)"
    obtain w' evs k where ih: "for_branches env college dir bs w1 = (Inr (), w', evs)"
      "k \<le> length bs" "fetched evs = map opt_name (take k bs)" "found_total evs = 0"
      "faults evs \<le> 1" "faults evs = 0 \<longrightarrow> k = length bs"
      using Cons.IH [of w1] by (elim exE conjE) (rule that)
    show ?thesis
      using n ih q
      by (intro exI [of _ w'] exI [of _ "(Log_Fetching (opt_name b) # pre) @ evs"] exI [of _ "Suc k"])
         (simp add: and_then_Inr)
  next
    assume "\<exists>m. leaf env college dir b w =
               (Inr Break, w1, Log_Fetching (opt_name b) # pre @ [Err_FailedToGoBack m])"
    then obtain m where b: "leaf env college dir b w =
               (Inr Break, w1, Log_Fetching (opt_name b) # pre @ [Err_FailedToGoBack m])" ..
    show ?thesis
      using b q
      by (intro exI [of _ w1] exI [of _ "Log_Fetching (opt_name b) # pre @ [Err_FailedToGoBack m]"]
            exI [of _ "Suc 0"])
         (simp add: and_then_Inr return_def)
  qed
qed

lemma enumerate_branches_shape:
  "\<exists>w1 pre. set pre \<subseteq> plain \<and>
     ((\<exists>e. enumerate_branches env base college w =
          (Inl e, w1, Log_ProcessingCollege (opt_name college) (opt_value college) # pre))
      \<or> (\<exists>bs. enumerate_branches env base college w =
          (Inr bs, w1, Log_ProcessingCollege (opt_name college) (opt_value college) # pre
                         @ [Log_FoundBranches (length bs) (opt_name college)])))"
proof -
  define dir where "dir = college_dir env base college"
  define pre_steps :: "(unit, 'a) prog" where "pre_steps =
    steps [ensure_dir env dir (Log_CreatedCollegeDir dir),
           console (Log_SelectingCollege (opt_value college)),
           await (select env collegeSelector (opt_value college)),
           await (waitForNavigation env),
           console Log_CollegeSelected,
           console Log_ExtractingBranches,
           await (waitForSelector env branchSelector)]"
  have em: "emits plain pre_steps"
    unfolding pre_steps_def
    by (rule emits_steps) (auto intro!: emits_ensure_dir emits_console emits_await simp: plain_def)
  have unfold: "enumerate_branches env base college w =
    (case pre_steps w of
       (Inl e, w1, ev1) \<Rightarrow> (Inl e, w1, Log_ProcessingCollege (opt_name college) (opt_value college) # ev1)
     | (Inr u, w1, ev1) \<Rightarrow>
         (case query_options env branchSelector w1 of
            (Inl e, w2) \<Rightarrow> (Inl e, w2, Log_ProcessingCollege (opt_name college) (opt_value college) # ev1)
          | (Inr options, w2) \<Rightarrow>
              (Inr (branch_options options), w2,
               Log_ProcessingCollege (opt_name college) (opt_value college) # ev1
                 @ [Log_FoundBranches (length (branch_options options)) (opt_name college)])))"
    unfolding enumerate_branches_def pre_steps_def dir_def [symmetric] Let_def
    by (simp add: seq_def and_then_def console_def await_def return_def
        split: prod.splits sum.splits)
  obtain r w1 ev1 where p: "pre_steps w = (r, w1, ev1)" by (cases "pre_steps w") auto
  have e1: "set ev1 \<subseteq> plain" using emitsD [OF em p] .
  show ?thesis
  proof (cases r)
    case (Inl e)
    with p e1 unfold show ?thesis by auto
  next
    case (Inr u)
    obtain r2 w2 where q: "query_options env branchSelector w1 = (r2, w2)"
      by (cases "query_options env branchSelector w1") auto
    show ?thesis
      using p e1 unfold Inr q by (cases r2) auto
  qed
qed

lemma college_body_shape:
  "\<exists>w' seg. events (college_body env base college w) = seg \<and> world_after (college_body env base college w) = w'
     \<and> take 1 seg = [Log_ProcessingCollege (opt_name college) (opt_value college)]
     \<and> (result (college_body env base college w) = Inr () \<longrightarrow>
          college_accounted college seg
          \<and> (\<exists>bs w1 ev1. enumerate_branches env base college w = (Inr bs, w1, ev1)
                \<and> seg = ev1 @ events (for_branches env college (college_dir env base college) bs w1)
                \<and> found_total seg = length bs))"
proof -
  obtain w1 pre where pre: "set pre \<subseteq> plain"
    and c: "(\<exists>e. enumerate_branches env base college w =
          (Inl e, w1, Log_ProcessingCollege (opt_name college) (opt_value college) # pre))
      \<or> (\<exists>bs. enumerate_branches env base college w =
          (Inr bs, w1, Log_ProcessingCollege (opt_name college) (opt_value college) # pre
                         @ [Log_FoundBranches (length bs) (opt_name college)]))"
    using enumerate_branches_shape [of env base college w] by blast
  note q = plain_list [OF pre]
  from c show ?thesis
  proof
    assume "\<exists>e. enumerate_branches env base college w =
          (Inl e, w1, Log_ProcessingCollege (opt_name college) (opt_value college) # pre)"
    then show ?thesis
      by (auto simp: college_body_def and_then_Inl)
  next
    assume "\<exists>bs. enumerate_branches env base college w =
          (Inr bs, w1, Log_ProcessingCollege (opt_name college) (opt_value college) # pre
                         @ [Log_FoundBranches (length bs) (opt_name college)])"
    then obtain bs where e: "enumerate_branches env base college w =
          (Inr bs, w1, Log_ProcessingCollege (opt_name college) (opt_value college) # pre
                         @ [Log_FoundBranches (length bs) (opt_name college)])" ..
    obtain w' evs k where f: "for_branches env college (college_dir env base college) bs w1 = (Inr (), w', evs)"
      "k \<le> length bs" "fetched evs = map opt_name (take k bs)" "found_total evs = 0"
      "faults evs \<le> 1" "faults evs = 0 \<longrightarrow> k = length bs"
      using for_branches_shape [of env college "college_dir env base college" bs w1]
      by (elim exE conjE) (rule that)
    show ?thesis
      using e f q
      by (simp add: college_body_def and_then_Inr college_accounted_def)
  qed
qed

lemma concat_totals:
  "list_all2 college_accounted cs segs \<Longrightarrow>
   length (fetched (concat segs)) \<le> found_total (concat segs)
   \<and> (faults (concat segs) = 0 \<longrightarrow> length (fetched (concat segs)) = found_total (concat segs))"
  by (induction cs segs rule: list_all2_induct) (auto simp: college_accounted_def)

lemma for_colleges_shape:
  "result (for_colleges env base cs w) = Inr () \<Longrightarrow>
   \<exists>segs. events (for_colleges env base cs w) = concat segs \<and> list_all2 college_accounted cs segs"
proof (induction cs arbitrary: w)
  case Nil
  show ?case by (simp add: return_def)
next
  case (Cons c cs)
  obtain r1 w1 seg where b: "college_body env base c w = (r1, w1, seg)"
    by (cases "college_body env base c w") auto
  show ?case
  proof (cases r1)
    case (Inl e)
    with b Cons.prems show ?thesis by (simp add: seq_def and_then_Inl)
  next
    case (Inr u)
    have acc: "college_accounted c seg"
      using college_body_shape [of env base c w] b Inr by auto
    have eq: "for_colleges env base (c # cs) w =
      (case for_colleges env base cs w1 of (r, w2, ev2) \<Rightarrow> (r, w2, seg @ ev2))"
      using b Inr by (simp add: seq_def and_then_Inr)
    then have "result (for_colleges env base cs w1) = Inr ()"
      using Cons.prems by (simp split: prod.splits)
    then obtain segs where s: "events (for_colleges env base cs w1) = concat segs"
      "list_all2 college_accounted cs segs"
      using Cons.IH by blast
    show ?thesis
      using eq s acc
      by (intro exI [of _ "seg # segs"]) (simp split: prod.splits)
  qed
qed




text \<open>
  Claim C3 (amended). Whatever the world does, the inner loop ends normally; the leaves
  it attempted are the first \<open>k\<close> branches of the college, in order and once each; it
  meets at most one recovery fault, and without one \<open>k\<close> is the number of branches. A
  pass of the outer loop that ends normally read the branches \<open>bs\<close> of its college,
  printed their number and ran the inner loop on them. When the outer loop ends
  normally, its events are those of one pass per college, in order, each accounted for
  on its own (\<open>college_accounted\<close>); the leaves attempted are at most the branches
  found, and as many when there was no recovery fault.
\<close>

theorem crawl_coverage:
  "(\<exists>k \<le> length branches.
      result (for_branches env college dir branches w) = Inr ()
      \<and> fetched (events (for_branches env college dir branches w)) = map opt_name (take k branches)
      \<and> faults (events (for_branches env college dir branches w)) \<le> 1
      \<and> (faults (events (for_branches env college dir branches w)) = 0 \<longrightarrow> k = length branches))
   \<and> (result (college_body env base college w) = Inr () \<longrightarrow>
        (\<exists>bs w1 ev1. enumerate_branches env base college w = (Inr bs, w1, ev1)
           \<and> events (college_body env base college w) =
               ev1 @ events (for_branches env college (college_dir env base college) bs w1)
           \<and> found_total (events (college_body env base college w)) = length bs))
   \<and> (result (for_colleges env base colleges w) = Inr () \<longrightarrow>
        (\<exists>segs. events (for_colleges env base colleges w) = concat segs
           \<and> list_all2 college_accounted colleges segs)
        \<and> length (fetched (events (for_colleges env base colleges w)))
             \<le> found_total (events (for_colleges env base colleges w))
        \<and> (faults (events (for_colleges env base colleges w)) = 0 \<longrightarrow>
             length (fetched (events (for_colleges env base colleges w)))
               = found_total (events (for_colleges env base colleges w))))"
proof -
  have a: "\<exists>k \<le> length branches.
      result (for_branches env college dir branches w) = Inr ()
      \<and> fetched (events (for_branches env college dir branches w)) = map opt_name (take k branches)
      \<and> faults (events (for_branches env college dir branches w)) \<le> 1
      \<and> (faults (events (for_branches env college dir branches w)) = 0 \<longrightarrow> k = length branches)"
    using for_branches_shape [of env college dir branches w] by auto
  have b: "result (college_body env base college w) = Inr () \<longrightarrow>
        (\<exists>bs w1 ev1. enumerate_branches env base college w = (Inr bs, w1, ev1)
           \<and> events (college_body env base college w) =
               ev1 @ events (for_branches env college (college_dir env base college) bs w1)
           \<and> found_total (events (college_body env base college w)) = length bs)"
    using college_body_shape [of env base college w] by auto
  have c: "result (for_colleges env base colleges w) = Inr () \<longrightarrow>
        (\<exists>segs. events (for_colleges env base colleges w) = concat segs
           \<and> list_all2 college_accounted colleges segs)
        \<and> length (fetched (events (for_colleges env base colleges w)))
             \<le> found_total (events (for_colleges env base colleges w))
        \<and> (faults (events (for_colleges env base colleges w)) = 0 \<longrightarrow>
             length (fetched (events (for_colleges env base colleges w)))
               = found_total (events (for_colleges env base colleges w)))"
  proof
    assume r: "result (for_colleges env base colleges w) = Inr ()"
    from for_colleges_shape [OF r] obtain segs where
      s: "events (for_colleges env base colleges w) = concat segs"
         "list_all2 college_accounted colleges segs" by blast
    from concat_totals [OF s(2)] s show
      "(\<exists>segs. events (for_colleges env base colleges w) = concat segs
           \<and> list_all2 college_accounted colleges segs)
        \<and> length (fetched (events (for_colleges env base colleges w)))
             \<le> found_total (events (for_colleges env base colleges w))
        \<and> (faults (events (for_colleges env base colleges w)) = 0 \<longrightarrow>
             length (fetched (events (for_colleges env base colleges w)))
               = found_total (events (for_colleges env base colleges w)))"
      by auto
  qed
  from a b c show ?thesis by blast
qed


text \<open>The scenario of the spec: three leaves attempted for 2 + 1 branches found.\<close>

theorem crawl_coverage_witness:
  "result (for_colleges script_env ''out'' [college_A, college_B] scenario) = Inr ()
   \<and> fetched (events (for_colleges script_env ''out'' [college_A, college_B] scenario)) = [''X'', ''Y'', ''Z'']
   \<and> found_total (events (for_colleges script_env ''out'' [college_A, college_B] scenario)) = 3
   \<and> faults (events (for_colleges script_env ''out'' [college_A, college_B] scenario)) = 0"
proof -
  have run: "result (for_colleges script_env ''out'' [college_A, college_B] scenario) = Inr ()"
    "fetched (events (for_colleges script_env ''out'' [college_A, college_B] scenario)) = [''X'', ''Y'', ''Z'']"
    "faults (events (for_colleges script_env ''out'' [college_A, college_B] scenario)) = 0"
    by code_simp+
  from crawl_coverage [where env = script_env and w = scenario and base = "''out''"
      and colleges = "[college_A, college_B]" and college = college_A and branches = "[]" and dir = "[]"]
  show ?thesis
    using run by simp
qed


lemma leaf_by_try:
  "leaf env college dir branch w =
     (case leaf_try env college dir branch w of
        (Inl e, w1, ev1) \<Rightarrow>
          (case leaf_catch env college branch e w1 of (r, w2, ev2) \<Rightarrow> (r, w2, ev1 @ ev2))
      | (Inr u, w1, ev1) \<Rightarrow> (Inr Next, w1, ev1))"
  by (simp add: leaf_def try_catch_def seq_def and_then_def return_def split: prod.splits sum.splits)

text \<open>
  Claim C3 as stated fails: selecting college B throws outside every \<open>try\<close> block, so
  the crawl ends with that exception; the branches of B are never read or attempted,
  and no recovery fault occurred.
\<close>

theorem crawl_abort_counterexample:
  "result (for_colleges script_env ''out'' [college_A, college_B]
      [Ok, Ok, Ok, Options [\<lparr>option_text = ''X'', option_value = ''x''\<rparr>],
       Ok, Ok, Ok, Ok, Ok, Ok, Rows [[''h'']], Ok, Ok,
       Throws ''net'', Ok, Ok, Options [\<lparr>option_text = ''Z'', option_value = ''z''\<rparr>]])
     = Inl (Error ''net'')
   \<and> world_after (for_colleges script_env ''out'' [college_A, college_B]
      [Ok, Ok, Ok, Options [\<lparr>option_text = ''X'', option_value = ''x''\<rparr>],
       Ok, Ok, Ok, Ok, Ok, Ok, Rows [[''h'']], Ok, Ok,
       Throws ''net'', Ok, Ok, Options [\<lparr>option_text = ''Z'', option_value = ''z''\<rparr>]])
     = [Ok, Ok, Options [\<lparr>option_text = ''Z'', option_value = ''z''\<rparr>]]
   \<and> fetched (events (for_colleges script_env ''out'' [college_A, college_B]
      [Ok, Ok, Ok, Options [\<lparr>option_text = ''X'', option_value = ''x''\<rparr>],
       Ok, Ok, Ok, Ok, Ok, Ok, Rows [[''h'']], Ok, Ok,
       Throws ''net'', Ok, Ok, Options [\<lparr>option_text = ''Z'', option_value = ''z''\<rparr>]]))
     = [''X'']
   \<and> faults (events (for_colleges script_env ''out'' [college_A, college_B]
      [Ok, Ok, Ok, Options [\<lparr>option_text = ''X'', option_value = ''x''\<rparr>],
       Ok, Ok, Ok, Ok, Ok, Ok, Rows [[''h'']], Ok, Ok,
       Throws ''net'', Ok, Ok, Options [\<lparr>option_text = ''Z'', option_value = ''z''\<rparr>]]))
     = 0"
  by code_simp

text \<open>
  Claim C4 (amended). When a step of \<open>submitLeaf\<close> throws \<open>e\<close>, leaving the world \<open>w1\<close>,
  the leaf goes from there straight to the \<open>catch\<close> block: it prints the failure with
  the names of the college and the branch and the message of \<open>e\<close>, and calls
  \<open>returnToForm\<close> in \<open>w1\<close>; nothing of the extraction is run or printed. The leaf ends
  with \<open>Next\<close> when the recovery succeeds and with \<open>Break\<close> when it throws, never with an
  exception, and the inner loop ends normally either way. When the recovery succeeds,
  the inner loop goes on with the remaining branches of the college from the world the
  recovery left; when the recovery throws, the inner loop stops there: the branch of
  the leaf is the only one attempted, no branch of \<open>rest\<close> is, and when the leaf was
  the first of its college, the outer loop goes on with the next college from the world
  the failed recovery left.
\<close>

theorem submit_error_is_caught:
  assumes "submitLeaf env college branch w = (Inl e, w1, ev1)"
  shows "leaf env college dir branch w =
           (case returnToForm env w1 of
              (Inr u, w2, ev2) \<Rightarrow>
                (Inr Next, w2,
                 Log_Fetching (opt_name branch) # ev1 @
                 [Err_CouldNotFetch (opt_name college) (opt_name branch) (message e),
                  Log_AttemptingGoBack, Log_ReturnedAfterError])
            | (Inl e2, w2, ev2) \<Rightarrow>
                (Inr Break, w2,
                 Log_Fetching (opt_name branch) # ev1 @
                 [Err_CouldNotFetch (opt_name college) (opt_name branch) (message e),
                  Log_AttemptingGoBack, Err_FailedToGoBack (message e2)]))
         \<and> set ev1 \<subseteq> {Log_ClickingSubmit, Log_ResultsLoaded}
         \<and> result (for_branches env college dir (branch # rest) w) = Inr ()
         \<and> for_branches env college dir (branch # rest) w =
             (case leaf env college dir branch w of
                (Inr Next, w2, ev) \<Rightarrow>
                  (case for_branches env college dir rest w2 of (r, w3, ev3) \<Rightarrow> (r, w3, ev @ ev3))
              | (r, w2, ev) \<Rightarrow> (Inr (), w2, ev))
         \<and> (returnToForm env w1 = (Inr (), wa, eva) \<longrightarrow>
              for_branches env college dir (branch # rest) w =
                (case for_branches env college dir rest wa of
                   (r, w3, ev3) \<Rightarrow>
                     (r, w3,
                      Log_Fetching (opt_name branch) # ev1 @
                      [Err_CouldNotFetch (opt_name college) (opt_name branch) (message e),
                       Log_AttemptingGoBack, Log_ReturnedAfterError] @ ev3))
              \<and> fetched (events (for_branches env college dir (branch # rest) w)) =
                  opt_name branch # fetched (events (for_branches env college dir rest wa)))
         \<and> (returnToForm env w1 = (Inl eb, wb, evb) \<longrightarrow>
              for_branches env college dir (branch # rest) w =
                (Inr (), wb,
                 Log_Fetching (opt_name branch) # ev1 @
                 [Err_CouldNotFetch (opt_name college) (opt_name branch) (message e),
                  Log_AttemptingGoBack, Err_FailedToGoBack (message eb)])
              \<and> fetched (events (for_branches env college dir (branch # rest) w)) =
                  [opt_name branch])
         \<and> (returnToForm env w1 = (Inl eb, wb, evb)
              \<and> enumerate_branches env base college w0 = (Inr (branch # rest), w, ev0)
              \<and> dir = college_dir env base college \<longrightarrow>
            for_colleges env base (college # colleges) w0 =
              (case for_colleges env base colleges wb of
                 (r3, w3, ev3) \<Rightarrow>
                   (r3, w3,
                    ev0 @ Log_Fetching (opt_name branch) # ev1 @
                    [Err_CouldNotFetch (opt_name college) (opt_name branch) (message e),
                     Log_AttemptingGoBack, Err_FailedToGoBack (message eb)] @ ev3)))"
proof -
  have a: "leaf env college dir branch w =
           (case returnToForm env w1 of
              (Inr u, w2, ev2) \<Rightarrow>
                (Inr Next, w2,
                 Log_Fetching (opt_name branch) # ev1 @
                 [Err_CouldNotFetch (opt_name college) (opt_name branch) (message e),
                  Log_AttemptingGoBack, Log_ReturnedAfterError])
            | (Inl e2, w2, ev2) \<Rightarrow>
                (Inr Break, w2,
                 Log_Fetching (opt_name branch) # ev1 @
                 [Err_CouldNotFetch (opt_name college) (opt_name branch) (message e),
                  Log_AttemptingGoBack, Err_FailedToGoBack (message e2)]))"
    using assms
    by (cases rule: returnToForm_cases [of env w1]) (simp_all add: leaf_unfold leaf_catch_unfold)
  have b: "set ev1 \<subseteq> {Log_ClickingSubmit, Log_ResultsLoaded}"
    using emitsD [OF emits_submitLeaf assms] .
  have c: "result (for_branches env college dir (branch # rest) w) = Inr ()"
    using for_branches_shape [of env college dir "branch # rest" w] by auto
  have d: "for_branches env college dir (branch # rest) w =
             (case leaf env college dir branch w of
                (Inr Next, w2, ev) \<Rightarrow>
                  (case for_branches env college dir rest w2 of (r, w3, ev3) \<Rightarrow> (r, w3, ev @ ev3))
              | (r, w2, ev) \<Rightarrow> (Inr (), w2, ev))"
    using leaf_shape [of env college dir branch w]
    by (auto simp: and_then_def return_def)
  have p: "set ev1 \<subseteq> plain"
    using b by (auto simp: plain_def)
  have f1: "fetched ev1 = []"
    using plain_list [OF p] by simp
  have g: "returnToForm env w1 = (Inr (), wa, eva) \<longrightarrow>
              for_branches env college dir (branch # rest) w =
                (case for_branches env college dir rest wa of
                   (r, w3, ev3) \<Rightarrow>
                     (r, w3,
                      Log_Fetching (opt_name branch) # ev1 @
                      [Err_CouldNotFetch (opt_name college) (opt_name branch) (message e),
                       Log_AttemptingGoBack, Log_ReturnedAfterError] @ ev3))
              \<and> fetched (events (for_branches env college dir (branch # rest) w)) =
                  opt_name branch # fetched (events (for_branches env college dir rest wa))"
  proof
    assume r: "returnToForm env w1 = (Inr (), wa, eva)"
    obtain r3 w3 ev3 where k: "for_branches env college dir rest wa = (r3, w3, ev3)"
      by (cases "for_branches env college dir rest wa") auto
    have l: "leaf env college dir branch w =
               (Inr Next, wa,
                Log_Fetching (opt_name branch) # ev1 @
                [Err_CouldNotFetch (opt_name college) (opt_name branch) (message e),
                 Log_AttemptingGoBack, Log_ReturnedAfterError])"
      using a r by simp
    have m: "for_branches env college dir (branch # rest) w =
               (r3, w3,
                Log_Fetching (opt_name branch) # ev1 @
                [Err_CouldNotFetch (opt_name college) (opt_name branch) (message e),
                 Log_AttemptingGoBack, Log_ReturnedAfterError] @ ev3)"
      unfolding d l using k by simp
    show "for_branches env college dir (branch # rest) w =
                (case for_branches env college dir rest wa of
                   (r, w3, ev3) \<Rightarrow>
                     (r, w3,
                      Log_Fetching (opt_name branch) # ev1 @
                      [Err_CouldNotFetch (opt_name college) (opt_name branch) (message e),
                       Log_AttemptingGoBack, Log_ReturnedAfterError] @ ev3))
              \<and> fetched (events (for_branches env college dir (branch # rest) w)) =
                  opt_name branch # fetched (events (for_branches env college dir rest wa))"
      unfolding m k using f1 by simp
  qed
  have h: "returnToForm env w1 = (Inl eb, wb, evb) \<longrightarrow>
              for_branches env college dir (branch # rest) w =
                (Inr (), wb,
                 Log_Fetching (opt_name branch) # ev1 @
                 [Err_CouldNotFetch (opt_name college) (opt_name branch) (message e),
                  Log_AttemptingGoBack, Err_FailedToGoBack (message eb)])
              \<and> fetched (events (for_branches env college dir (branch # rest) w)) =
                  [opt_name branch]"
  proof
    assume r: "returnToForm env w1 = (Inl eb, wb, evb)"
    have l: "leaf env college dir branch w =
               (Inr Break, wb,
                Log_Fetching (opt_name branch) # ev1 @
                [Err_CouldNotFetch (opt_name college) (opt_name branch) (message e),
                 Log_AttemptingGoBack, Err_FailedToGoBack (message eb)])"
      using a r by simp
    have m: "for_branches env college dir (branch # rest) w =
                (Inr (), wb,
                 Log_Fetching (opt_name branch) # ev1 @
                 [Err_CouldNotFetch (opt_name college) (opt_name branch) (message e),
                  Log_AttemptingGoBack, Err_FailedToGoBack (message eb)])"
      unfolding d l by simp
    show "for_branches env college dir (branch # rest) w =
                (Inr (), wb,
                 Log_Fetching (opt_name branch) # ev1 @
                 [Err_CouldNotFetch (opt_name college) (opt_name branch) (message e),
                  Log_AttemptingGoBack, Err_FailedToGoBack (message eb)])
              \<and> fetched (events (for_branches env college dir (branch # rest) w)) =
                  [opt_name branch]"
      unfolding m using f1 by simp
  qed
  have i: "returnToForm env w1 = (Inl eb, wb, evb)
              \<and> enumerate_branches env base college w0 = (Inr (branch # rest), w, ev0)
              \<and> dir = college_dir env base college \<longrightarrow>
            for_colleges env base (college # colleges) w0 =
              (case for_colleges env base colleges wb of
                 (r3, w3, ev3) \<Rightarrow>
                   (r3, w3,
                    ev0 @ Log_Fetching (opt_name branch) # ev1 @
                    [Err_CouldNotFetch (opt_name college) (opt_name branch) (message e),
                     Log_AttemptingGoBack, Err_FailedToGoBack (message eb)] @ ev3))"
  proof
    assume k: "returnToForm env w1 = (Inl eb, wb, evb)
              \<and> enumerate_branches env base college w0 = (Inr (branch # rest), w, ev0)
              \<and> dir = college_dir env base college"
    with h have m: "for_branches env college dir (branch # rest) w =
                (Inr (), wb,
                 Log_Fetching (opt_name branch) # ev1 @
                 [Err_CouldNotFetch (opt_name college) (opt_name branch) (message e),
                  Log_AttemptingGoBack, Err_FailedToGoBack (message eb)])"
      by blast
    from k have "college_body env base college w0 =
           (Inr (), wb,
            ev0 @ Log_Fetching (opt_name branch) # ev1 @
            [Err_CouldNotFetch (opt_name college) (opt_name branch) (message e),
             Log_AttemptingGoBack, Err_FailedToGoBack (message eb)])"
      using m by (simp add: college_body_def and_then_Inr del: for_branches.simps)
    then show "for_colleges env base (college # colleges) w0 =
              (case for_colleges env base colleges wb of
                 (r3, w3, ev3) \<Rightarrow>
                   (r3, w3,
                    ev0 @ Log_Fetching (opt_name branch) # ev1 @
                    [Err_CouldNotFetch (opt_name college) (opt_name branch) (message e),
                     Log_AttemptingGoBack, Err_FailedToGoBack (message eb)] @ ev3))"
      by (simp add: seq_def and_then_Inr split: prod.splits)
  qed
  from a b c d g h i show ?thesis by blast
qed

text \<open>The click on submit throws; the recovery succeeds.\<close>

theorem submit_error_is_caught_witness:
  "leaf script_env college_B ''out/B'' branch_Z [Ok, Ok, Ok, Throws ''net'', Ok, Ok, Ok] =
     (Inr Next, [Ok],
      [Log_Fetching ''Z'', Log_ClickingSubmit, Err_CouldNotFetch ''B'' ''Z'' ''net'',
       Log_AttemptingGoBack, Log_ReturnedAfterError])"
proof -
  have s: "submitLeaf script_env college_B branch_Z [Ok, Ok, Ok, Throws ''net'', Ok, Ok, Ok]
           = (Inl (Error ''net''), [Ok, Ok, Ok], [Log_ClickingSubmit])"
    by code_simp
  have r: "returnToForm script_env [Ok, Ok, Ok] = (Inr (), [Ok], [])"
    by code_simp
  have "leaf script_env college_B ''out/B'' branch_Z [Ok, Ok, Ok, Throws ''net'', Ok, Ok, Ok] =
           (case returnToForm script_env [Ok, Ok, Ok] of
              (Inr u, w2, ev2) \<Rightarrow>
                (Inr Next, w2,
                 Log_Fetching (opt_name branch_Z) # [Log_ClickingSubmit] @
                 [Err_CouldNotFetch (opt_name college_B) (opt_name branch_Z) (message (Error ''net'')),
                  Log_AttemptingGoBack, Log_ReturnedAfterError])
            | (Inl e2, w2, ev2) \<Rightarrow>
                (Inr Break, w2,
                 Log_Fetching (opt_name branch_Z) # [Log_ClickingSubmit] @
                 [Err_CouldNotFetch (opt_name college_B) (opt_name branch_Z) (message (Error ''net'')),
                  Log_AttemptingGoBack, Err_FailedToGoBack (message e2)]))"
    using submit_error_is_caught [OF s, of "''out/B''" "[]"] by (rule conjunct1)
  then show ?thesis
    unfolding r by (simp add: college_B_def branch_Z_def)
qed


text \<open>
  Claim C4 as stated fails: the first step of \<open>submitLeaf\<close> for (A, X) throws and the
  recovery throws as well; the inner loop stops, and Y, the next branch of A, is never
  attempted. In the crawl of the colleges A, with the branches X and Y, and B, with
  the branch Z, the leaf attempted after (A, X) is (B, Z).
\<close>

theorem submit_error_break_counterexample:
  "submitLeaf script_env college_A branch_X [Throws ''nav'', Throws ''stuck'', Ok, Ok, Ok, Ok, Ok, Ok, Ok] =
     (Inl (Error ''nav''), [Throws ''stuck'', Ok, Ok, Ok, Ok, Ok, Ok, Ok], [])
   \<and> leaf script_env college_A ''out/A'' branch_X
        [Throws ''nav'', Throws ''stuck'', Ok, Ok, Ok, Ok, Ok, Ok, Ok] =
       (Inr Break, [Ok, Ok, Ok, Ok, Ok, Ok, Ok],
        [Log_Fetching ''X'', Err_CouldNotFetch ''A'' ''X'' ''nav'', Log_AttemptingGoBack,
         Err_FailedToGoBack ''stuck''])
   \<and> for_branches script_env college_A ''out/A'' [branch_X, branch_Y]
        [Throws ''nav'', Throws ''stuck'', Ok, Ok, Ok, Ok, Ok, Ok, Ok] =
       (Inr (), [Ok, Ok, Ok, Ok, Ok, Ok, Ok],
        [Log_Fetching ''X'', Err_CouldNotFetch ''A'' ''X'' ''nav'', Log_AttemptingGoBack,
         Err_FailedToGoBack ''stuck''])
   \<and> fetched (events (for_branches script_env college_A ''out/A'' [branch_X, branch_Y]
        [Throws ''nav'', Throws ''stuck'', Ok, Ok, Ok, Ok, Ok, Ok, Ok])) = [''X'']
   \<and> ''Y'' \<notin> set (fetched (events (for_branches script_env college_A ''out/A'' [branch_X, branch_Y]
        [Throws ''nav'', Throws ''stuck'', Ok, Ok, Ok, Ok, Ok, Ok, Ok])))
   \<and> for_colleges script_env ''out'' [college_A, college_B]
        [Ok, Ok, Ok, Options [\<lparr>option_text = ''X'', option_value = ''x''\<rparr>,
                              \<lparr>option_text = ''Y'', option_value = ''y''\<rparr>],
         Throws ''nav'', Throws ''stuck'',
         Ok, Ok, Ok, Options [\<lparr>option_text = ''Z'', option_value = ''z''\<rparr>],
         Ok, Ok, Ok, Ok, Ok, Ok, Rows [[''h'']], Ok, Ok] =
       (Inr (), [],
        [Log_ProcessingCollege ''A'' ''a'', Log_SelectingCollege ''a'', Log_CollegeSelected,
         Log_ExtractingBranches, Log_FoundBranches 2 ''A'',
         Log_Fetching ''X'', Err_CouldNotFetch ''A'' ''X'' ''nav'', Log_AttemptingGoBack,
         Err_FailedToGoBack ''stuck'',
         Log_ProcessingCollege ''B'' ''b'', Log_SelectingCollege ''b'', Log_CollegeSelected,
         Log_ExtractingBranches, Log_FoundBranches 1 ''B'',
         Log_Fetching ''Z'', Log_ClickingSubmit, Log_ResultsLoaded, Log_ScrapingTable,
         Log_Scraped 0 ''Z'', Log_NoData ''Z'', Log_GoingBack, Log_Returned])"
  by code_simp

lemma leaf_try_fetched:
  assumes "leaf_try env college dir branch w = (r, w1, ev1)"
  shows "fetched ev1 = [opt_name branch]"
proof -
  obtain w' pre where pre: "set pre \<subseteq> plain"
    and l: "leaf env college dir branch w = (Inr Next, w', Log_Fetching (opt_name branch) # pre)
      \<or> (\<exists>m. leaf env college dir branch w =
               (Inr Break, w', Log_Fetching (opt_name branch) # pre @ [Err_FailedToGoBack m]))"
    using leaf_shape [of env college dir branch w] by blast
  have f: "fetched (events (leaf env college dir branch w)) = [opt_name branch]"
    using l plain_list [OF pre] by auto
  show ?thesis
  proof (cases r)
    case (Inr u)
    with assms f show ?thesis by (simp add: leaf_by_try)
  next
    case (Inl e)
    show ?thesis
      using assms f Inl
      by (cases rule: returnToForm_cases [of env w1])
         (simp_all add: leaf_by_try leaf_catch_unfold)
  qed
qed

text \<open>
  Claim C5 (amended). When the \<open>try\<close> block of a leaf throws and the \<open>returnToForm\<close> of
  the \<open>catch\<close> block throws as well, the inner loop ends there: no branch of \<open>rest\<close> is
  attempted, and when the leaf was the first of its college, the outer loop goes on
  with the next college from the world the failed recovery left. A \<open>returnToForm\<close>
  that throws after the leaf's results were saved is such a throw of the \<open>try\<close> block
  (last conjunct): the \<open>catch\<close> block then tries \<open>returnToForm\<close> a second time, and
  only the failure of this second try abandons the remaining branches.
\<close>

theorem abandon_after_failed_recovery:
  assumes t: "leaf_try env college dir branch w = (Inl e, w1, ev1)"
      and r: "returnToForm env w1 = (Inl e2, w2, ev2)"
  shows "for_branches env college dir (branch # rest) w =
           (Inr (), w2,
            ev1 @ [Err_CouldNotFetch (opt_name college) (opt_name branch) (message e),
                   Log_AttemptingGoBack, Err_FailedToGoBack (message e2)])
         \<and> fetched (events (for_branches env college dir (branch # rest) w)) = [opt_name branch]
         \<and> (enumerate_branches env base college w0 = (Inr (branch # rest), w, ev0)
              \<and> dir = college_dir env base college \<longrightarrow>
            for_colleges env base (college # colleges) w0 =
              (case for_colleges env base colleges w2 of
                 (r3, w3, ev3) \<Rightarrow>
                   (r3, w3,
                    ev0 @ ev1 @ [Err_CouldNotFetch (opt_name college) (opt_name branch) (message e),
                                 Log_AttemptingGoBack, Err_FailedToGoBack (message e2)] @ ev3)))
         \<and> (submitLeaf env college branch w' = (Inr (), wa, eva)
              \<and> scrapeTable env wa = (Inr td, wb, evb)
              \<and> saveResults env dir branch td wb = (Inr (), wc, evc)
              \<and> returnToForm env wc = (Inl e', wd, evd) \<longrightarrow>
            leaf_try env college dir branch w' =
              (Inl e', wd, Log_Fetching (opt_name branch) # eva @ evb @ evc @ [Log_GoingBack]))"
proof -
  have l: "leaf env college dir branch w =
           (Inr Break, w2,
            ev1 @ [Err_CouldNotFetch (opt_name college) (opt_name branch) (message e),
                   Log_AttemptingGoBack, Err_FailedToGoBack (message e2)])"
    using t r by (simp add: leaf_by_try leaf_catch_unfold)
  have a: "for_branches env college dir (branch # rest) w =
           (Inr (), w2,
            ev1 @ [Err_CouldNotFetch (opt_name college) (opt_name branch) (message e),
                   Log_AttemptingGoBack, Err_FailedToGoBack (message e2)])"
    using l by (simp add: and_then_def return_def)
  have b: "fetched (events (for_branches env college dir (branch # rest) w)) = [opt_name branch]"
    unfolding a using leaf_try_fetched [OF t] by simp
  have c: "enumerate_branches env base college w0 = (Inr (branch # rest), w, ev0)
              \<and> dir = college_dir env base college \<longrightarrow>
            for_colleges env base (college # colleges) w0 =
              (case for_colleges env base colleges w2 of
                 (r3, w3, ev3) \<Rightarrow>
                   (r3, w3,
                    ev0 @ ev1 @ [Err_CouldNotFetch (opt_name college) (opt_name branch) (message e),
                                 Log_AttemptingGoBack, Err_FailedToGoBack (message e2)] @ ev3))"
  proof
    assume h: "enumerate_branches env base college w0 = (Inr (branch # rest), w, ev0)
              \<and> dir = college_dir env base college"
    then have "college_body env base college w0 =
           (Inr (), w2,
            ev0 @ ev1 @ [Err_CouldNotFetch (opt_name college) (opt_name branch) (message e),
                   Log_AttemptingGoBack, Err_FailedToGoBack (message e2)])"
      using a by (simp add: college_body_def and_then_Inr del: for_branches.simps)
    then show "for_colleges env base (college # colleges) w0 =
              (case for_colleges env base colleges w2 of
                 (r3, w3, ev3) \<Rightarrow>
                   (r3, w3,
                    ev0 @ ev1 @ [Err_CouldNotFetch (opt_name college) (opt_name branch) (message e),
                                 Log_AttemptingGoBack, Err_FailedToGoBack (message e2)] @ ev3))"
      by (simp add: seq_def and_then_Inr split: prod.splits)
  qed
  have d: "submitLeaf env college branch w' = (Inr (), wa, eva)
              \<and> scrapeTable env wa = (Inr td, wb, evb)
              \<and> saveResults env dir branch td wb = (Inr (), wc, evc)
              \<and> returnToForm env wc = (Inl e', wd, evd) \<longrightarrow>
            leaf_try env college dir branch w' =
              (Inl e', wd, Log_Fetching (opt_name branch) # eva @ evb @ evc @ [Log_GoingBack])"
  proof
    assume h: "submitLeaf env college branch w' = (Inr (), wa, eva)
              \<and> scrapeTable env wa = (Inr td, wb, evb)
              \<and> saveResults env dir branch td wb = (Inr (), wc, evc)
              \<and> returnToForm env wc = (Inl e', wd, evd)"
    then have "evd = []"
      using returnToForm_events [of env wc] by simp
    with h show "leaf_try env college dir branch w' =
              (Inl e', wd, Log_Fetching (opt_name branch) # eva @ evb @ evc @ [Log_GoingBack])"
      by (simp add: leaf_try_def seq_def and_then_def console_def)
  qed
  from a b c d show ?thesis by blast
qed

text \<open>(A, X) is saved, going back fails twice: (A, Y) is not attempted.\<close>

theorem abandon_after_failed_recovery_witness:
  "for_branches script_env college_A ''out/A'' [branch_X, branch_Y] stuck_script =
     (Inr (), [Ok, Ok, Ok, Ok],
      [Log_Fetching ''X'', Log_ClickingSubmit, Log_ResultsLoaded, Log_ScrapingTable,
       Log_Scraped 1 ''X'',
       WriteFile ''out/A/X.csv''
         (convertToCsv dec_num2str (Some (received_records dec_str2num Some [[''h''], [''1'', ''HT1'', ''10'']]))),
       Log_DataSaved ''out/A/X.csv'', Log_GoingBack,
       Err_CouldNotFetch ''A'' ''X'' ''timeout'', Log_AttemptingGoBack, Err_FailedToGoBack ''stuck''])
   \<and> fetched (events (for_branches script_env college_A ''out/A'' [branch_X, branch_Y] stuck_script))
       = [''X'']"
proof -
  have t: "leaf_try script_env college_A ''out/A'' branch_X stuck_script =
     (Inl (Error ''timeout''), [Throws ''stuck'', Ok, Ok, Ok, Ok],
      [Log_Fetching ''X'', Log_ClickingSubmit, Log_ResultsLoaded, Log_ScrapingTable,
       Log_Scraped 1 ''X'',
       WriteFile ''out/A/X.csv''
         (convertToCsv dec_num2str (Some (received_records dec_str2num Some [[''h''], [''1'', ''HT1'', ''10'']]))),
       Log_DataSaved ''out/A/X.csv'', Log_GoingBack])"
    by code_simp
  have r: "returnToForm script_env [Throws ''stuck'', Ok, Ok, Ok, Ok] =
             (Inl (Error ''stuck''), [Ok, Ok, Ok, Ok], [])"
    by code_simp
  from abandon_after_failed_recovery [OF t r, of "[branch_Y]"]
  show ?thesis
    by (simp add: college_A_def branch_X_def del: for_branches.simps)
qed

text \<open>
  Claim C5 as stated fails: (A, X) is saved, \<open>goBack\<close> throws after it, the second
  \<open>returnToForm\<close> (in the \<open>catch\<close> block) succeeds, and (A, Y) is attempted.
\<close>

theorem retry_reaches_next_branch_counterexample:
  "fetched (events (for_branches script_env college_A ''out/A'' [branch_X, branch_Y]
      [Ok, Ok, Ok, Ok, Ok, Ok, Rows [[''h''], [''1'', ''HT1'', ''10'']], Ok, Throws ''timeout'',
       Ok, Ok,
       Ok, Ok, Ok, Ok, Ok, Ok, Rows [[''h'']], Ok, Ok])) = [''X'', ''Y'']
   \<and> events (for_branches script_env college_A ''out/A'' [branch_X, branch_Y]
      [Ok, Ok, Ok, Ok, Ok, Ok, Rows [[''h''], [''1'', ''HT1'', ''10'']], Ok, Throws ''timeout'',
       Ok, Ok,
       Ok, Ok, Ok, Ok, Ok, Ok, Rows [[''h'']], Ok, Ok]) =
     [Log_Fetching ''X'', Log_ClickingSubmit, Log_ResultsLoaded, Log_ScrapingTable,
      Log_Scraped 1 ''X'',
      WriteFile ''out/A/X.csv''
        (convertToCsv dec_num2str (Some (received_records dec_str2num Some [[''h''], [''1'', ''HT1'', ''10'']]))),
      Log_DataSaved ''out/A/X.csv'', Log_GoingBack,
      Err_CouldNotFetch ''A'' ''X'' ''timeout'', Log_AttemptingGoBack, Log_ReturnedAfterError,
      Log_Fetching ''Y'', Log_ClickingSubmit, Log_ResultsLoaded, Log_ScrapingTable,
      Log_Scraped 0 ''Y'', Log_NoData ''Y'', Log_GoingBack, Log_Returned]"
  by code_simp


lemma scrapeTable_unfold:
  "scrapeTable env w =
     (case waitForSelector env resultsTableSelector w of
        (Inl e, w1) \<Rightarrow> (Inl e, w1, [Log_ScrapingTable])
      | (Inr u, w1) \<Rightarrow>
          (case query_rows env resultsTableSelector w1 of
             (Inl e, w2) \<Rightarrow> (Inl e, w2, [Log_ScrapingTable])
           | (Inr rows, w2) \<Rightarrow>
               (Inr (received_records (env_str2num env) (env_json_num env) rows), w2,
                [Log_ScrapingTable])))"
  by (simp add: scrapeTable_def seq_def and_then_def console_def await_def return_def
      split: prod.splits sum.splits)

text \<open>
  Claim C2 (amended). The extraction returns no record for a page without rows and for
  a table of only a header row. But when the results view has settled and the wait for
  the results table throws (\<open>waitForSelector\<close> does so when no table appears in time),
  the rows are never read: the leaf prints the failure of the branch, not the
  \<open>No data found\<close> line, and goes to the recovery.
\<close>

theorem missing_table_is_failure:
  assumes s: "submitLeaf env college branch w = (Inr (), w1, ev1)"
      and t: "waitForSelector env resultsTableSelector w1 = (Inl e, w2)"
  shows "leaf env college dir branch w =
           (case returnToForm env w2 of
              (Inr u, w3, ev3) \<Rightarrow>
                (Inr Next, w3,
                 Log_Fetching (opt_name branch) # ev1 @
                 [Log_ScrapingTable,
                  Err_CouldNotFetch (opt_name college) (opt_name branch) (message e),
                  Log_AttemptingGoBack, Log_ReturnedAfterError])
            | (Inl e2, w3, ev3) \<Rightarrow>
                (Inr Break, w3,
                 Log_Fetching (opt_name branch) # ev1 @
                 [Log_ScrapingTable,
                  Err_CouldNotFetch (opt_name college) (opt_name branch) (message e),
                  Log_AttemptingGoBack, Err_FailedToGoBack (message e2)]))
         \<and> Err_CouldNotFetch (opt_name college) (opt_name branch) (message e)
              \<in> set (events (leaf env college dir branch w))
         \<and> Log_NoData (opt_name branch) \<notin> set (events (leaf env college dir branch w))
         \<and> tableData (env_str2num env) [] = []
         \<and> tableData (env_str2num env) [header] = []"
proof -
  have a: "leaf env college dir branch w =
           (case returnToForm env w2 of
              (Inr u, w3, ev3) \<Rightarrow>
                (Inr Next, w3,
                 Log_Fetching (opt_name branch) # ev1 @
                 [Log_ScrapingTable,
                  Err_CouldNotFetch (opt_name college) (opt_name branch) (message e),
                  Log_AttemptingGoBack, Log_ReturnedAfterError])
            | (Inl e2, w3, ev3) \<Rightarrow>
                (Inr Break, w3,
                 Log_Fetching (opt_name branch) # ev1 @
                 [Log_ScrapingTable,
                  Err_CouldNotFetch (opt_name college) (opt_name branch) (message e),
                  Log_AttemptingGoBack, Err_FailedToGoBack (message e2)]))"
    using s t
    by (cases rule: returnToForm_cases [of env w2])
       (simp_all add: leaf_unfold scrapeTable_unfold leaf_catch_unfold)
  have e1: "set ev1 \<subseteq> {Log_ClickingSubmit, Log_ResultsLoaded}"
    using emitsD [OF emits_submitLeaf s] .
  have b: "Err_CouldNotFetch (opt_name college) (opt_name branch) (message e)
              \<in> set (events (leaf env college dir branch w))"
    unfolding a by (cases rule: returnToForm_cases [of env w2]) simp_all
  have c: "Log_NoData (opt_name branch) \<notin> set (events (leaf env college dir branch w))"
    unfolding a using e1 by (cases rule: returnToForm_cases [of env w2]) auto
  show ?thesis
    using a b c by (simp add: tableData_eq)
qed

text \<open>The results view settles, the wait for the table throws, the recovery succeeds.\<close>

theorem missing_table_is_failure_witness:
  "leaf script_env college_A ''out/A'' branch_X [Ok, Ok, Ok, Ok, Ok, Throws ''TimeoutError'', Ok, Ok] =
     (Inr Next, [],
      [Log_Fetching ''X'', Log_ClickingSubmit, Log_ResultsLoaded, Log_ScrapingTable,
       Err_CouldNotFetch ''A'' ''X'' ''TimeoutError'', Log_AttemptingGoBack, Log_ReturnedAfterError])"
proof -
  have s: "submitLeaf script_env college_A branch_X
             [Ok, Ok, Ok, Ok, Ok, Throws ''TimeoutError'', Ok, Ok] =
           (Inr (), [Throws ''TimeoutError'', Ok, Ok], [Log_ClickingSubmit, Log_ResultsLoaded])"
    by code_simp
  have t: "waitForSelector script_env resultsTableSelector [Throws ''TimeoutError'', Ok, Ok] =
           (Inl (Error ''TimeoutError''), [Ok, Ok])"
    by code_simp
  have r: "returnToForm script_env [Ok, Ok] = (Inr (), [], [])"
    by code_simp
  have "leaf script_env college_A ''out/A'' branch_X [Ok, Ok, Ok, Ok, Ok, Throws ''TimeoutError'', Ok, Ok] =
           (case returnToForm script_env [Ok, Ok] of
              (Inr u, w3, ev3) \<Rightarrow>
                (Inr Next, w3,
                 Log_Fetching (opt_name branch_X) # [Log_ClickingSubmit, Log_ResultsLoaded] @
                 [Log_ScrapingTable,
                  Err_CouldNotFetch (opt_name college_A) (opt_name branch_X) (message (Error ''TimeoutError'')),
                  Log_AttemptingGoBack, Log_ReturnedAfterError])
            | (Inl e2, w3, ev3) \<Rightarrow>
                (Inr Break, w3,
                 Log_Fetching (opt_name branch_X) # [Log_ClickingSubmit, Log_ResultsLoaded] @
                 [Log_ScrapingTable,
                  Err_CouldNotFetch (opt_name college_A) (opt_name branch_X) (message (Error ''TimeoutError'')),
                  Log_AttemptingGoBack, Err_FailedToGoBack (message e2)]))"
    using missing_table_is_failure [OF s t, of "''out/A''"] by (rule conjunct1)
  then show ?thesis
    unfolding r by (simp add: college_A_def branch_X_def)
qed

text \<open>
  Claim C2 as stated fails: with the results view settled and no table, the leaf is
  reported as a failure (\<open>Could not fetch data\<close>), and \<open>No data found\<close> is not printed.
\<close>

theorem missing_table_counterexample:
  "events (leaf script_env college_A ''out/A'' branch_X
             [Ok, Ok, Ok, Ok, Ok, Throws ''TimeoutError'', Ok, Ok]) =
     [Log_Fetching ''X'', Log_ClickingSubmit, Log_ResultsLoaded, Log_ScrapingTable,
      Err_CouldNotFetch ''A'' ''X'' ''TimeoutError'', Log_AttemptingGoBack, Log_ReturnedAfterError]
   \<and> Log_NoData ''X'' \<notin> set (events (leaf script_env college_A ''out/A'' branch_X
             [Ok, Ok, Ok, Ok, Ok, Throws ''TimeoutError'', Ok, Ok]))"
  by code_simp

lemma leaf_events_form:
  "\<exists>ev1 ev2 post.
     set ev1 \<subseteq> {Log_ClickingSubmit, Log_ResultsLoaded} \<and> set ev2 \<subseteq> {Log_ScrapingTable}
     \<and> set post \<subseteq> {Log_GoingBack, Log_Returned, Log_AttemptingGoBack, Log_ReturnedAfterError}
                     \<union> range (Err_CouldNotFetch (opt_name college) (opt_name branch))
                     \<union> range Err_FailedToGoBack
     \<and> (events (leaf env college dir branch w) = Log_Fetching (opt_name branch) # ev1 @ ev2 @ post
        \<or> (\<exists>td w2. events (leaf env college dir branch w) =
              Log_Fetching (opt_name branch) # ev1 @ ev2
                @ events (saveResults env dir branch td w2) @ post))"
proof -
  let ?P = "{Log_GoingBack, Log_Returned, Log_AttemptingGoBack, Log_ReturnedAfterError}
                     \<union> range (Err_CouldNotFetch (opt_name college) (opt_name branch))
                     \<union> range Err_FailedToGoBack"
  have catch: "\<And>e w0. set (events (leaf_catch env college branch e w0)) \<subseteq> ?P"
  proof -
    fix e w0
    show "set (events (leaf_catch env college branch e w0)) \<subseteq> ?P"
      by (cases rule: returnToForm_cases [of env w0]) (auto simp: leaf_catch_unfold)
  qed
  obtain r1 w1 ev1 where s: "submitLeaf env college branch w = (r1, w1, ev1)"
    by (cases "submitLeaf env college branch w") auto
  have p1: "set ev1 \<subseteq> {Log_ClickingSubmit, Log_ResultsLoaded}"
    using emitsD [OF emits_submitLeaf s] .
  show ?thesis
  proof (cases r1)
    case (Inl e)
    obtain rc wc evc where c: "leaf_catch env college branch e w1 = (rc, wc, evc)"
      by (cases "leaf_catch env college branch e w1") auto
    have "set evc \<subseteq> ?P" using catch [of e w1] c by simp
    with s Inl c p1 show ?thesis
      by (intro exI [of _ ev1] exI [of _ "[]"] exI [of _ evc]) (simp add: leaf_unfold)
  next
    case (Inr u)
    obtain r2 w2 ev2 where t: "scrapeTable env w1 = (r2, w2, ev2)"
      by (cases "scrapeTable env w1") auto
    have p2: "set ev2 \<subseteq> {Log_ScrapingTable}"
      using emitsD [OF emits_scrapeTable t] .
    show ?thesis
    proof (cases r2)
      case (Inl e)
      obtain rc wc evc where c: "leaf_catch env college branch e w2 = (rc, wc, evc)"
        by (cases "leaf_catch env college branch e w2") auto
      have "set evc \<subseteq> ?P" using catch [of e w2] c by simp
      with s t Inr Inl c p1 p2 show ?thesis
        by (intro exI [of _ ev1] exI [of _ ev2] exI [of _ evc]) (simp add: leaf_unfold)
    next
      case td: (Inr td)
      obtain r3 w3 ev3 where v: "saveResults env dir branch td w2 = (r3, w3, ev3)"
        by (cases "saveResults env dir branch td w2") auto
      show ?thesis
      proof (cases r3)
        case (Inl e)
        obtain rc wc evc where c: "leaf_catch env college branch e w3 = (rc, wc, evc)"
          by (cases "leaf_catch env college branch e w3") auto
        have "set evc \<subseteq> ?P" using catch [of e w3] c by simp
        with s t v Inr td Inl c p1 p2 show ?thesis
          by (intro exI [of _ ev1] exI [of _ ev2] exI [of _ evc])
             (auto simp: leaf_unfold intro!: exI [of _ td] exI [of _ w2])
      next
        case u3: (Inr u3)
        show ?thesis
        proof (cases rule: returnToForm_cases [of env w3])
          case (ok w4)
          with s t v Inr td u3 p1 p2 show ?thesis
            by (intro exI [of _ ev1] exI [of _ ev2] exI [of _ "[Log_GoingBack, Log_Returned]"])
               (auto simp: leaf_unfold intro!: exI [of _ td] exI [of _ w2])
        next
          case (fail e4 w4)
          obtain rc wc evc where c: "leaf_catch env college branch e4 w4 = (rc, wc, evc)"
            by (cases "leaf_catch env college branch e4 w4") auto
          have "set evc \<subseteq> ?P" using catch [of e4 w4] c by simp
          with s t v Inr td u3 fail c p1 p2 show ?thesis
            by (intro exI [of _ ev1] exI [of _ ev2] exI [of _ "Log_GoingBack # evc"])
               (auto simp: leaf_unfold intro!: exI [of _ td] exI [of _ w2])
        qed
      qed
    qed
  qed
qed

lemma saveResults_events:
  "td \<noteq> [] \<Longrightarrow>
   events (saveResults env dir branch td w) =
     [Log_Scraped (length td) (opt_name branch),
      WriteFile (resolve env dir (clean_name (opt_name branch) @ ''.csv''))
        (convertToCsv (env_num2str env) (Some td))]
   \<or> events (saveResults env dir branch td w) =
     [Log_Scraped (length td) (opt_name branch),
      WriteFile (resolve env dir (clean_name (opt_name branch) @ ''.csv''))
        (convertToCsv (env_num2str env) (Some td)),
      Log_DataSaved (resolve env dir (clean_name (opt_name branch) @ ''.csv''))]"
  by (auto simp: saveResults_nonempty split: prod.splits sum.splits)

lemma convertToCsv_empty:
  "convertToCsv num2str (Some []) = []" "convertToCsv num2str None = []"
  by (simp_all add: convertToCsv_def)

text \<open>
  Claim C8. The serializer returns the empty string for an empty array (and for
  \<open>null\<close> or \<open>undefined\<close>). With no record, lines 173-189 print the count and
  \<open>No data found\<close>, call nothing and leave the world as it is. In any run of a leaf, a
  call of \<open>fs.writeFileSync\<close> writes the CSV text of a non-empty list of records whose
  count was printed, and \<open>No data found\<close> is not printed in that run.
\<close>

theorem empty_results_write_nothing:
  "convertToCsv num2str (Some []) = [] \<and> convertToCsv num2str None = []
   \<and> saveResults env dir branch [] w =
       (Inr (), w, [Log_Scraped 0 (opt_name branch), Log_NoData (opt_name branch)])
   \<and> (WriteFile p d \<in> set (events (leaf env college dir branch w')) \<longrightarrow>
        (\<exists>td. td \<noteq> [] \<and> d = convertToCsv (env_num2str env) (Some td)
              \<and> Log_Scraped (length td) (opt_name branch)
                   \<in> set (events (leaf env college dir branch w')))
        \<and> Log_NoData (opt_name branch) \<notin> set (events (leaf env college dir branch w')))"
proof -
  let ?L = "events (leaf env college dir branch w')"
  have main: "WriteFile p d \<in> set ?L \<longrightarrow>
        (\<exists>td. td \<noteq> [] \<and> d = convertToCsv (env_num2str env) (Some td)
              \<and> Log_Scraped (length td) (opt_name branch) \<in> set ?L)
        \<and> Log_NoData (opt_name branch) \<notin> set ?L"
  proof
    assume wf: "WriteFile p d \<in> set ?L"
    obtain ev1 ev2 post where
      p1: "set ev1 \<subseteq> {Log_ClickingSubmit, Log_ResultsLoaded}" and
      p2: "set ev2 \<subseteq> {Log_ScrapingTable}" and
      p3: "set post \<subseteq> {Log_GoingBack, Log_Returned, Log_AttemptingGoBack, Log_ReturnedAfterError}
                     \<union> range (Err_CouldNotFetch (opt_name college) (opt_name branch))
                     \<union> range Err_FailedToGoBack" and
      form: "?L = Log_Fetching (opt_name branch) # ev1 @ ev2 @ post
        \<or> (\<exists>td w2. ?L = Log_Fetching (opt_name branch) # ev1 @ ev2
                @ events (saveResults env dir branch td w2) @ post)"
      using leaf_events_form [of college branch env dir w'] by blast
    have n1: "WriteFile p d \<notin> set ev1" "Log_NoData (opt_name branch) \<notin> set ev1" using p1 by auto
    have n2: "WriteFile p d \<notin> set ev2" "Log_NoData (opt_name branch) \<notin> set ev2" using p2 by auto
    have n3: "WriteFile p d \<notin> set post" "Log_NoData (opt_name branch) \<notin> set post" using p3 by auto
    from form show "(\<exists>td. td \<noteq> [] \<and> d = convertToCsv (env_num2str env) (Some td)
              \<and> Log_Scraped (length td) (opt_name branch) \<in> set ?L)
        \<and> Log_NoData (opt_name branch) \<notin> set ?L"
    proof
      assume "?L = Log_Fetching (opt_name branch) # ev1 @ ev2 @ post"
      with wf n1 n2 n3 show ?thesis by simp
    next
      assume "\<exists>td w2. ?L = Log_Fetching (opt_name branch) # ev1 @ ev2
                @ events (saveResults env dir branch td w2) @ post"
      then obtain td w2 where
        L: "?L = Log_Fetching (opt_name branch) # ev1 @ ev2
                @ events (saveResults env dir branch td w2) @ post" by blast
      have in_save: "WriteFile p d \<in> set (events (saveResults env dir branch td w2))"
        using wf n1 n2 n3 unfolding L by simp
      have ne: "td \<noteq> []"
        using in_save by (auto simp: saveResults_empty)
      from saveResults_events [OF ne, of env dir branch w2] in_save
      have d: "d = convertToCsv (env_num2str env) (Some td)"
        and sc: "Log_Scraped (length td) (opt_name branch)
                   \<in> set (events (saveResults env dir branch td w2))"
        and nd: "Log_NoData (opt_name branch) \<notin> set (events (saveResults env dir branch td w2))"
        by auto
      show ?thesis
        using ne d sc nd n1 n2 n3 unfolding L by auto
    qed
  qed
  show ?thesis
    using main by (simp add: convertToCsv_empty saveResults_empty)
qed

text \<open>A leaf whose table has only a stray one-cell row, and a leaf with one record.\<close>

theorem empty_results_write_nothing_witness:
  "events (leaf script_env college_A ''out/A'' branch_Y
             [Ok, Ok, Ok, Ok, Ok, Ok, Rows [[''h''], [''stray'']], Ok, Ok]) =
     [Log_Fetching ''Y'', Log_ClickingSubmit, Log_ResultsLoaded, Log_ScrapingTable,
      Log_Scraped 0 ''Y'', Log_NoData ''Y'', Log_GoingBack, Log_Returned]
   \<and> WriteFile ''out/A/X.csv''
        (convertToCsv dec_num2str (Some (received_records dec_str2num Some [[''h''], [''1'', ''HT1'', ''10'']])))
       \<in> set (events (leaf script_env college_A ''out/A'' branch_X
             [Ok, Ok, Ok, Ok, Ok, Ok, Rows [[''h''], [''1'', ''HT1'', ''10'']], Ok, Ok, Ok]))
   \<and> Log_NoData ''X''
       \<notin> set (events (leaf script_env college_A ''out/A'' branch_X
             [Ok, Ok, Ok, Ok, Ok, Ok, Rows [[''h''], [''1'', ''HT1'', ''10'']], Ok, Ok, Ok]))"
proof -
  have a: "events (leaf script_env college_A ''out/A'' branch_Y
             [Ok, Ok, Ok, Ok, Ok, Ok, Rows [[''h''], [''stray'']], Ok, Ok]) =
     [Log_Fetching ''Y'', Log_ClickingSubmit, Log_ResultsLoaded, Log_ScrapingTable,
      Log_Scraped 0 ''Y'', Log_NoData ''Y'', Log_GoingBack, Log_Returned]"
    by code_simp
  have b: "WriteFile ''out/A/X.csv''
        (convertToCsv dec_num2str (Some (received_records dec_str2num Some [[''h''], [''1'', ''HT1'', ''10'']])))
       \<in> set (events (leaf script_env college_A ''out/A'' branch_X
             [Ok, Ok, Ok, Ok, Ok, Ok, Rows [[''h''], [''1'', ''HT1'', ''10'']], Ok, Ok, Ok]))"
    by code_simp
  from empty_results_write_nothing [where env = script_env and college = college_A
      and dir = "''out/A''" and branch = branch_X and p = "''out/A/X.csv''"
      and d = "convertToCsv dec_num2str (Some (received_records dec_str2num Some [[''h''], [''1'', ''HT1'', ''10'']]))"
      and w' = "[Ok, Ok, Ok, Ok, Ok, Ok, Rows [[''h''], [''1'', ''HT1'', ''10'']], Ok, Ok, Ok]"
      and num2str = dec_num2str and w = "[]"] b
  have "Log_NoData (opt_name branch_X)
       \<notin> set (events (leaf script_env college_A ''out/A'' branch_X
             [Ok, Ok, Ok, Ok, Ok, Ok, Rows [[''h''], [''1'', ''HT1'', ''10'']], Ok, Ok, Ok]))"
    by blast
  with a b show ?thesis by (simp add: branch_X_def)
qed


section \<open>Reading a CSV text back\<close>


lemma ends_line_field: "ends_line t \<Longrightarrow> ends_field t"
  by (auto simp: ends_line_def ends_field_def split: list.splits)

lemma split_at_sep:
  "no_sep a \<Longrightarrow> no_sep a' \<Longrightarrow> ends_field t \<Longrightarrow> ends_field t' \<Longrightarrow> a @ t = a' @ t'
   \<Longrightarrow> a = a' \<and> t = t'"
proof (induction a arbitrary: a')
  case Nil
  then show ?case
    by (cases a') (auto simp: no_sep_def ends_field_def)
next
  case (Cons c a)
  show ?case
  proof (cases a')
    case Nil
    with Cons.prems show ?thesis by (auto simp: no_sep_def ends_field_def)
  next
    case (Cons c' a'')
    with Cons.prems Cons.IH [of a''] show ?thesis by (auto simp: no_sep_def)
  qed
qed

lemma replace_quotes_append: "replace_quotes (a @ b) = replace_quotes a @ replace_quotes b"
  by (induction a) auto

lemma replace_quotes_inj: "replace_quotes s = replace_quotes s' \<Longrightarrow> s = s'"
proof (induction s arbitrary: s')
  case Nil
  then show ?case by (cases s') (auto split: if_splits)
next
  case (Cons c s)
  then show ?case by (cases s') (auto split: if_splits)
qed

lemma count_replace_quotes: "count_list (replace_quotes s) DQ = 2 * count_list s DQ"
  by (induction s) auto

lemma quoted_inj:
  "replace_quotes s @ DQ # t = replace_quotes s' @ DQ # t' \<Longrightarrow> ends_field t \<Longrightarrow> ends_field t'
   \<Longrightarrow> s = s' \<and> t = t'"
proof (induction s arbitrary: s')
  case Nil
  then show ?case
    by (cases s') (auto simp: ends_field_def split: if_splits)
next
  case (Cons c s)
  show ?case
  proof (cases s')
    case Nil
    with Cons.prems show ?thesis by (auto simp: ends_field_def split: if_splits)
  next
    case (Cons c' s'')
    with Cons.prems Cons.IH [of s''] show ?thesis by (auto split: if_splits)
  qed
qed

lemma no_sep_replace_quotes: "no_sep (replace_quotes s) = no_sep s"
  by (simp add: no_sep_def set_replace_quotes)

lemma mixed_impossible:
  assumes sep: "\<not> no_sep s" and ns: "no_sep s'" and t': "ends_field t'"
    and eq: "DQ # replace_quotes s @ DQ # t = replace_quotes s' @ t'"
  shows False
proof -
  define u where "u = takeWhile (\<lambda>c. c \<noteq> COMMA \<and> c \<noteq> NL) s"
  define v where "v = dropWhile (\<lambda>c. c \<noteq> COMMA \<and> c \<noteq> NL) s"
  have s: "s = u @ v" by (simp add: u_def v_def)
  have nu: "no_sep u"
    unfolding u_def no_sep_def by (auto dest: set_takeWhileD)
  have "v \<noteq> []"
    using sep unfolding v_def no_sep_def by (auto simp: dropWhile_eq_Nil_conv)
  then obtain c v' where v: "v = c # v'" by (cases v) auto
  have c: "c = COMMA \<or> c = NL"
    using hd_dropWhile [of "\<lambda>c. c \<noteq> COMMA \<and> c \<noteq> NL" s] v \<open>v \<noteq> []\<close> unfolding v_def by auto
  then have cq: "c \<noteq> DQ" by auto
  have lhs: "DQ # replace_quotes s @ DQ # t =
             (DQ # replace_quotes u) @ (c # replace_quotes v' @ DQ # t)"
    using cq by (simp add: s v replace_quotes_append)
  have "DQ # replace_quotes u = replace_quotes s'"
  proof -
    have "no_sep (DQ # replace_quotes u)" using nu by (simp add: no_sep_def set_replace_quotes)
    moreover have "no_sep (replace_quotes s')" using ns by (simp add: no_sep_replace_quotes)
    moreover have "ends_field (c # replace_quotes v' @ DQ # t)" using c by (simp add: ends_field_def)
    ultimately show ?thesis
      using split_at_sep [of "DQ # replace_quotes u" "replace_quotes s'"
          "c # replace_quotes v' @ DQ # t" t'] t' eq lhs by simp
  qed
  then have "count_list (DQ # replace_quotes u) DQ = count_list (replace_quotes s') DQ" by simp
  then have "Suc (2 * count_list u DQ) = 2 * count_list s' DQ"
    by (simp add: count_replace_quotes)
  then show False by presburger
qed

lemma csv_field_text:
  "csv_field num2str (JString s) =
     (if no_sep s then replace_quotes s else DQ # replace_quotes s @ [DQ])"
  by (auto simp: csv_field_string no_sep_def)

lemma text_field_inj:
  assumes "ends_field t" "ends_field t'"
    and "csv_field num2str (JString s) @ t = csv_field num2str (JString s') @ t'"
  shows "s = s' \<and> t = t'"
proof (cases "no_sep s")
  case True
  show ?thesis
  proof (cases "no_sep s'")
    case s': True
    from split_at_sep [of "replace_quotes s" "replace_quotes s'" t t'] assms True s'
    have "replace_quotes s = replace_quotes s' \<and> t = t'"
      by (simp add: csv_field_text no_sep_replace_quotes)
    then show ?thesis by (auto dest: replace_quotes_inj)
  next
    case False
    from mixed_impossible [OF False True assms(1), of t'] assms(3) True False
    show ?thesis by (simp add: csv_field_text)
  qed
next
  case False
  show ?thesis
  proof (cases "no_sep s'")
    case True
    from mixed_impossible [OF False True assms(2), of t] assms(3) True False
    show ?thesis by (simp add: csv_field_text)
  next
    case s': False
    from quoted_inj [of s t s' t'] assms False s'
    show ?thesis by (simp add: csv_field_text)
  qed
qed

lemma number_text:
  assumes "plain_numbers num2str"
  shows "no_sep (NumberToString num2str n)" and "inj (NumberToString num2str)"
proof -
  show "no_sep (NumberToString num2str n)"
    using assms by (cases n) (auto simp: plain_numbers_def NumberToString_def no_sep_def)
  show "inj (NumberToString num2str)"
  proof (rule injI)
    fix a b assume "NumberToString num2str a = NumberToString num2str b"
    then show "a = b"
      using assms
      by (cases a; cases b) (auto simp: plain_numbers_def NumberToString_def dest: injD)
  qed
qed

lemma field_inj:
  assumes pn: "plain_numbers num2str"
    and k: "has_kind k v" "has_kind k v'"
    and t: "ends_field t" "ends_field t'"
    and eq: "csv_field num2str v @ t = csv_field num2str v' @ t'"
  shows "v = v' \<and> t = t'"
proof (cases k)
  case KText
  with k obtain s s' where v: "v = JString s" "v' = JString s'"
    by (cases v; cases v') auto
  with text_field_inj [OF t, of num2str s s'] eq show ?thesis by simp
next
  case KNumber
  with k obtain n n' where v: "v = JNumber n" "v' = JNumber n'"
    by (cases v; cases v') auto
  from split_at_sep [of "NumberToString num2str n" "NumberToString num2str n'" t t']
    number_text [OF pn] t eq v
  have "NumberToString num2str n = NumberToString num2str n' \<and> t = t'"
    by (simp add: csv_field_others)
  with number_text(2) [OF pn] v show ?thesis by (auto dest: injD)
qed


lemma tail_inj:
  assumes pn: "plain_numbers num2str"
  shows "list_all2 same_kind vs vs' \<Longrightarrow> ends_line t \<Longrightarrow> ends_line t' \<Longrightarrow>
     concat (map (\<lambda>v. COMMA # csv_field num2str v) vs) @ t
       = concat (map (\<lambda>v. COMMA # csv_field num2str v) vs') @ t'
     \<Longrightarrow> vs = vs' \<and> t = t'"
proof (induction vs vs' rule: list_all2_induct)
  case Nil
  then show ?case by simp
next
  case (Cons v vs v' vs')
  let ?T = "concat (map (\<lambda>v. COMMA # csv_field num2str v) vs) @ t"
  let ?T' = "concat (map (\<lambda>v. COMMA # csv_field num2str v) vs') @ t'"
  have e: "ends_field ?T" "ends_field ?T'"
    using Cons.prems(1,2) by (cases vs; cases vs'; simp add: ends_field_def ends_line_field
        ends_line_def split: list.splits)+
  from Cons.hyps(1) obtain k where k: "has_kind k v" "has_kind k v'"
    by (auto simp: same_kind_def)
  from Cons.prems(3) have "csv_field num2str v @ ?T = csv_field num2str v' @ ?T'" by simp
  from field_inj [OF pn k e this] have "v = v'" "?T = ?T'" by auto
  with Cons.IH [OF Cons.prems(1,2)] show ?case by simp
qed

lemma row_inj:
  assumes pn: "plain_numbers num2str" and a: "list_all2 same_kind vs vs'"
    and t: "ends_line t" "ends_line t'"
    and eq: "join [COMMA] (map (csv_field num2str) vs) @ t
               = join [COMMA] (map (csv_field num2str) vs') @ t'"
  shows "vs = vs' \<and> t = t'"
proof (cases vs)
  case Nil
  with a have "vs' = []" by simp
  with Nil eq show ?thesis by simp
next
  case (Cons v vs1)
  with a obtain v' vs1' where c': "vs' = v' # vs1'" and sk: "same_kind v v'"
    and a1: "list_all2 same_kind vs1 vs1'"
    by (cases vs') auto
  let ?T = "concat (map (\<lambda>v. COMMA # csv_field num2str v) vs1) @ t"
  let ?T' = "concat (map (\<lambda>v. COMMA # csv_field num2str v) vs1') @ t'"
  have e: "ends_field ?T" "ends_field ?T'"
    using t by (cases vs1; cases vs1'; simp add: ends_field_def ends_line_field
        ends_line_def split: list.splits)+
  from sk obtain k where k: "has_kind k v" "has_kind k v'" by (auto simp: same_kind_def)
  from eq have "csv_field num2str v @ ?T = csv_field num2str v' @ ?T'"
    by (simp add: Cons c' join_Cons comp_def)
  from field_inj [OF pn k e this] have "v = v'" "?T = ?T'" by auto
  with tail_inj [OF pn a1 t] Cons c' show ?thesis by simp
qed

lemma map_get_prop:
  "distinct (map fst r) \<Longrightarrow> map (get_prop r) (map fst r) = map snd r"
proof (induction r)
  case Nil
  show ?case by simp
next
  case (Cons p r)
  obtain k v where p: "p = (k, v)" by (cases p)
  have "map (get_prop ((k, v) # r)) (map fst r) = map (get_prop r) (map fst r)"
    using Cons.prems p by (intro map_cong) (auto simp: get_prop_def)
  with Cons p show ?case by (simp add: get_prop_def)
qed

lemma csv_row_own_keys:
  assumes d: "distinct (keys r)"
  shows "csv_row num2str (keys r) r = join [COMMA] (map (csv_field num2str) (map snd r))"
proof -
  have m: "map (get_prop r) (map fst r) = map snd r"
    using map_get_prop [of r] d by (simp add: keys_def)
  have "map (\<lambda>header. csv_field num2str (get_prop r header)) (map fst r)
          = map (csv_field num2str) (map (get_prop r) (map fst r))"
    by (simp only: map_map comp_def)
  then have "map (\<lambda>header. csv_field num2str (get_prop r header)) (map fst r)
          = map (csv_field num2str) (map snd r)"
    by (simp only: m)
  then show ?thesis
    by (simp only: csv_row_def keys_def)
qed

lemma conforms_same_kind:
  assumes "conforms ty r" "conforms ty r'" "keys r = keys r'"
  shows "list_all2 same_kind (map snd r) (map snd r')"
proof -
  have len: "length r = length r'"
    using assms(3) by (metis keys_def length_map)
  show ?thesis
    unfolding list_all2_conv_all_nth
  proof (intro conjI allI impI)
    show "length (map snd r) = length (map snd r')" using len by simp
    fix i assume i: "i < length (map snd r)"
    then have ir: "i < length r" "i < length r'" using len by simp_all
    have fk: "fst (r ! i) = fst (r' ! i)"
      using assms(3) ir by (metis keys_def nth_map)
    have "has_kind (ty (fst (r ! i))) (snd (r ! i))"
      using assms(1) ir(1) by (auto simp: conforms_def list_all_length split: prod.splits)
    moreover have "has_kind (ty (fst (r' ! i))) (snd (r' ! i))"
      using assms(2) ir(2) by (auto simp: conforms_def list_all_length split: prod.splits)
    ultimately show "same_kind (map snd r ! i) (map snd r' ! i)"
      using fk ir by (auto simp: same_kind_def)
  qed
qed

lemma record_eq:
  "keys r = keys r' \<Longrightarrow> map snd r = map snd r' \<Longrightarrow> r = r'"
  by (metis keys_def zip_map_fst_snd)

lemma rows_inj:
  assumes pn: "plain_numbers num2str"
  shows "list_all (\<lambda>r. conforms ty r \<and> keys r = hs) Rs \<Longrightarrow>
         list_all (\<lambda>r. conforms ty r \<and> keys r = hs) Rs' \<Longrightarrow>
         concat (map (\<lambda>row. NL # csv_row num2str hs row) Rs)
           = concat (map (\<lambda>row. NL # csv_row num2str hs row) Rs')
         \<Longrightarrow> Rs = Rs'"
proof (induction Rs arbitrary: Rs')
  case Nil
  then show ?case by (cases Rs') auto
next
  case (Cons r Rs)
  show ?case
  proof (cases Rs')
    case Nil
    with Cons.prems show ?thesis by simp
  next
    case c': (Cons r' Rs1')
    let ?T = "concat (map (\<lambda>row. NL # csv_row num2str hs row) Rs)"
    let ?T' = "concat (map (\<lambda>row. NL # csv_row num2str hs row) Rs1')"
    have el: "ends_line ?T" "ends_line ?T'"
      by (cases Rs; simp add: ends_line_def; cases Rs1'; simp add: ends_line_def)+
    have r: "conforms ty r" "keys r = hs" and r': "conforms ty r'" "keys r' = hs"
      using Cons.prems c' by auto
    have d: "distinct (keys r)" "distinct (keys r')"
      using r r' by (auto simp: conforms_def)
    have "csv_row num2str hs r @ ?T = csv_row num2str hs r' @ ?T'"
      using Cons.prems(3) c' by simp
    then have "join [COMMA] (map (csv_field num2str) (map snd r)) @ ?T
             = join [COMMA] (map (csv_field num2str) (map snd r')) @ ?T'"
      using csv_row_own_keys [OF d(1), of num2str] csv_row_own_keys [OF d(2), of num2str] r r'
      by simp
    from row_inj [OF pn conforms_same_kind [OF r(1) r'(1)] el this] r r'
    have "map snd r = map snd r'" "?T = ?T'" by auto
    then have "r = r'" "Rs = Rs1'"
      using record_eq [of r r'] r r' Cons.IH [of Rs1'] Cons.prems c' by auto
    with c' show ?thesis by simp
  qed
qed

lemma name_split:
  "DQ \<notin> set h \<Longrightarrow> DQ \<notin> set h' \<Longrightarrow> h @ DQ # x = h' @ DQ # x' \<Longrightarrow> h = h' \<and> x = x'"
proof (induction h arbitrary: h')
  case Nil
  then show ?case by (cases h') auto
next
  case (Cons c h)
  then show ?case by (cases h') auto
qed

lemma header_tail_inj:
  "\<forall>h \<in> set hs. DQ \<notin> set h \<Longrightarrow> \<forall>h \<in> set hs'. DQ \<notin> set h \<Longrightarrow> ends_line t \<Longrightarrow> ends_line t' \<Longrightarrow>
   concat (map (\<lambda>h. COMMA # DQ # h @ [DQ]) hs) @ t = concat (map (\<lambda>h. COMMA # DQ # h @ [DQ]) hs') @ t'
   \<Longrightarrow> hs = hs' \<and> t = t'"
proof (induction hs arbitrary: hs')
  case Nil
  then show ?case by (cases hs') (auto simp: ends_line_def)
next
  case (Cons h hs)
  show ?case
  proof (cases hs')
    case Nil
    with Cons.prems show ?thesis by (auto simp: ends_line_def)
  next
    case c': (Cons h' hs1')
    let ?T = "concat (map (\<lambda>h. COMMA # DQ # h @ [DQ]) hs) @ t"
    let ?T' = "concat (map (\<lambda>h. COMMA # DQ # h @ [DQ]) hs1') @ t'"
    from Cons.prems(5) c' have "h @ DQ # ?T = h' @ DQ # ?T'" by simp
    from name_split [OF _ _ this] Cons.prems(1,2) c' have "h = h'" "?T = ?T'" by auto
    with Cons.IH [of hs1'] Cons.prems c' show ?thesis by auto
  qed
qed

lemma header_inj:
  assumes q: "\<forall>h \<in> set hs. DQ \<notin> set h" "\<forall>h \<in> set hs'. DQ \<notin> set h"
    and t: "ends_line t" "ends_line t'"
    and eq: "csv_header hs @ t = csv_header hs' @ t'"
  shows "hs = hs' \<and> t = t'"
proof -
  have form: "\<And>xs. csv_header xs =
     (case xs of [] \<Rightarrow> [] | h # hs1 \<Rightarrow> DQ # h @ DQ # concat (map (\<lambda>h. COMMA # DQ # h @ [DQ]) hs1))"
    by (simp add: csv_header_def join_Cons comp_def split: list.splits)
  show ?thesis
  proof (cases hs)
    case Nil
    with eq t show ?thesis
      by (cases hs') (auto simp: form ends_line_def)
  next
    case (Cons h hs1)
    show ?thesis
    proof (cases hs')
      case Nil
      with eq t Cons show ?thesis by (auto simp: form ends_line_def)
    next
      case c': (Cons h' hs1')
      let ?T = "concat (map (\<lambda>h. COMMA # DQ # h @ [DQ]) hs1) @ t"
      let ?T' = "concat (map (\<lambda>h. COMMA # DQ # h @ [DQ]) hs1') @ t'"
      from eq Cons c' have "h @ DQ # ?T = h' @ DQ # ?T'" by (simp add: form)
      from name_split [OF _ _ this] q Cons c' have "h = h'" "?T = ?T'" by auto
      with header_tail_inj [of hs1 hs1' t t'] q t Cons c' show ?thesis by auto
    qed
  qed
qed

lemma conforming_csv_inj:
  assumes pn: "plain_numbers num2str"
    and u: "uniform R" "uniform R'"
    and c: "\<forall>r \<in> set R. conforms ty r" "\<forall>r \<in> set R'. conforms ty r"
    and eq: "convertToCsv num2str (Some R) = convertToCsv num2str (Some R')"
  shows "R = R'"
proof (cases R)
  case Nil
  with eq show ?thesis
    by (cases R') (auto simp: convertToCsv_empty convertToCsv_Cons)
next
  case (Cons r rs)
  show ?thesis
  proof (cases R')
    case Nil
    with eq Cons show ?thesis by (auto simp: convertToCsv_empty convertToCsv_Cons)
  next
    case c': (Cons r' rs')
    let ?B = "concat (map (\<lambda>row. NL # csv_row num2str (keys r) row) (r # rs))"
    let ?B' = "concat (map (\<lambda>row. NL # csv_row num2str (keys r') row) (r' # rs'))"
    have el: "ends_line ?B" "ends_line ?B'" by (simp_all add: ends_line_def)
    have q: "\<forall>h \<in> set (keys r). DQ \<notin> set h" "\<forall>h \<in> set (keys r'). DQ \<notin> set h"
      using c Cons c' by (auto simp: conforms_def keys_def list_all_iff)
    from eq have "csv_header (keys r) @ ?B = csv_header (keys r') @ ?B'"
      by (simp only: Cons c' convertToCsv_Cons)
    from header_inj [OF q el this] have k: "keys r = keys r'" and b: "?B = ?B'" by auto
    have a: "list_all (\<lambda>x. conforms ty x \<and> keys x = keys r) (r # rs)"
      using u(1) c(1) Cons by (auto simp: uniform_def list_all_iff)
    have a': "list_all (\<lambda>x. conforms ty x \<and> keys x = keys r) (r' # rs')"
      using u(2) c(2) c' k by (auto simp: uniform_def list_all_iff)
    from rows_inj [OF pn a a'] b k have "r # rs = r' # rs'" by simp
    with Cons c' show ?thesis by simp
  qed
qed


lemma digit_char: "d < 10 \<Longrightarrow> of_char (''0123456789'' ! d) = (48::nat) + d"
proof -
  assume "d < 10"
  then have "d = 0 \<or> d = 1 \<or> d = 2 \<or> d = 3 \<or> d = 4 \<or> d = 5 \<or> d = 6 \<or> d = 7 \<or> d = 8 \<or> d = 9"
    by arith
  then show ?thesis by (elim disjE) simp_all
qed

lemma digit_char_in: "d < 10 \<Longrightarrow> ''0123456789'' ! d \<in> set ''0123456789''"
  by (rule nth_mem) simp

lemma dec_num2str_digits: "set (dec_num2str n) \<subseteq> set ''0123456789''"
proof (induction n rule: dec_num2str.induct)
  case (1 n)
  show ?case
  proof (cases "n < 10")
    case True
    then show ?thesis
      using digit_char_in [of n] by (subst dec_num2str.simps) simp
  next
    case False
    have "n mod 10 < 10" by simp
    with False 1 show ?thesis
      using digit_char_in [of "n mod 10"] by (subst dec_num2str.simps) simp
  qed
qed

lemma decimal_value_snoc:
  "decimal_value acc (xs @ [c]) =
     (case decimal_value acc xs of None \<Rightarrow> None
      | Some v \<Rightarrow> (let d = (of_char c :: nat) in
                   if 48 \<le> d \<and> d \<le> 57 then Some (10 * v + (d - 48)) else None))"
  by (induction xs arbitrary: acc) (auto simp: Let_def)

lemma decimal_value_dec_num2str: "decimal_value 0 (dec_num2str n) = Some n"
proof (induction n rule: dec_num2str.induct)
  case (1 n)
  show ?case
  proof (cases "n < 10")
    case True
    then show ?thesis
      by (subst dec_num2str.simps) (simp add: digit_char Let_def)
  next
    case False
    have m: "n mod 10 < 10" by simp
    from False 1 have ih: "decimal_value 0 (dec_num2str (n div 10)) = Some (n div 10)" by simp
    show ?thesis
      using False
      by (subst dec_num2str.simps) (simp add: decimal_value_snoc ih digit_char [OF m] Let_def)
  qed
qed

lemma plain_numbers_dec: "plain_numbers dec_num2str"
proof -
  have i: "inj dec_num2str"
  proof (rule injI)
    fix a b assume "dec_num2str a = dec_num2str b"
    then have "decimal_value 0 (dec_num2str a) = decimal_value 0 (dec_num2str b)" by simp
    then show "a = b" by (simp only: decimal_value_dec_num2str option.inject)
  qed
  have d: "\<And>x c. c \<in> set (dec_num2str x) \<Longrightarrow> c \<in> set ''0123456789''"
    using dec_num2str_digits by blast
  have n: "\<And>x. dec_num2str x \<noteq> ''NaN''"
  proof
    fix x assume e: "dec_num2str x = ''NaN''"
    have "CHR ''N'' \<in> set ''NaN''" by simp
    then have "CHR ''N'' \<in> set (dec_num2str x)" by (simp only: e)
    from d [OF this] show False by simp
  qed
  have c: "\<And>x. COMMA \<notin> set (dec_num2str x)"
  proof
    fix x assume "COMMA \<in> set (dec_num2str x)"
    from d [OF this] show False by simp
  qed
  have l: "\<And>x. NL \<notin> set (dec_num2str x)"
  proof
    fix x assume "NL \<in> set (dec_num2str x)"
    from d [OF this] show False by simp
  qed
  show ?thesis
    unfolding plain_numbers_def using i n c l by blast
qed


text \<open>
  Claim C1 (amended). For every typing of the field names and every printing of numbers
  that is injective, never NaN and free of commas and newlines, there is a deserializer
  that gives back every uniform sequence of records conforming to the typing from its
  CSV text.
\<close>

theorem csv_roundtrip_typed:
  assumes "plain_numbers num2str"
  shows "\<exists>deserialize. \<forall>R. uniform R \<and> (\<forall>r \<in> set R. conforms ty r) \<longrightarrow>
           deserialize (convertToCsv num2str (Some R)) = R"
proof -
  let ?S = "{R. uniform R \<and> (\<forall>r \<in> set R. conforms ty r)}"
  let ?f = "\<lambda>R. convertToCsv num2str (Some R)"
  have "inj_on ?f ?S"
    by (rule inj_onI) (auto intro: conforming_csv_inj [OF assms])
  then have "\<And>R. R \<in> ?S \<Longrightarrow> the_inv_into ?S ?f (?f R) = R"
    by (rule the_inv_into_f_f)
  then show ?thesis by (intro exI [of _ "the_inv_into ?S ?f"]) blast
qed

text \<open>
  One deserializer gives back a table with a comma in a name and a table of two rows,
  both of full rows of the results table.
\<close>

theorem csv_roundtrip_typed_witness:
  "\<exists>deserialize.
     deserialize (convertToCsv dec_num2str (Some (tableData dec_str2num
        [[''h''], [''1'', ''HT1'', ''7'', ''A, B'', ''F'', ''OC'', ''OU'', ''CAT'']])))
       = tableData dec_str2num
        [[''h''], [''1'', ''HT1'', ''7'', ''A, B'', ''F'', ''OC'', ''OU'', ''CAT'']]
     \<and> deserialize (convertToCsv dec_num2str (Some (tableData dec_str2num
        [[''h''], [''1'', ''HT1'', ''7'', ''A'', ''F'', ''OC'', ''OU'', ''CAT''],
                  [''2'', ''HT2'', ''9'', ''B'', ''M'', ''BC'', ''AU'', ''CAT'']])))
       = tableData dec_str2num
        [[''h''], [''1'', ''HT1'', ''7'', ''A'', ''F'', ''OC'', ''OU'', ''CAT''],
                  [''2'', ''HT2'', ''9'', ''B'', ''M'', ''BC'', ''AU'', ''CAT'']]"
proof -
  let ?R0 = "tableData dec_str2num
        [[''h''], [''1'', ''HT1'', ''7'', ''A, B'', ''F'', ''OC'', ''OU'', ''CAT'']]"
  let ?R1 = "tableData dec_str2num
        [[''h''], [''1'', ''HT1'', ''7'', ''A'', ''F'', ''OC'', ''OU'', ''CAT''],
                  [''2'', ''HT2'', ''9'', ''B'', ''M'', ''BC'', ''AU'', ''CAT'']]"
  have u: "uniform ?R0" "uniform ?R1" by code_simp+
  have c: "list_all (conforms allotment_typing) ?R0" "list_all (conforms allotment_typing) ?R1"
    by code_simp+
  from csv_roundtrip_typed [OF plain_numbers_dec, of allotment_typing]
  obtain deserialize where
    d: "\<And>R. uniform R \<Longrightarrow> (\<forall>r \<in> set R. conforms allotment_typing r) \<Longrightarrow>
          deserialize (convertToCsv dec_num2str (Some R)) = R"
    by blast
  have "deserialize (convertToCsv dec_num2str (Some ?R0)) = ?R0"
    using d [OF u(1)] c(1) by (simp add: list_all_iff)
  moreover have "deserialize (convertToCsv dec_num2str (Some ?R1)) = ?R1"
    using d [OF u(2)] c(2) by (simp add: list_all_iff)
  ultimately show ?thesis by blast
qed

text \<open>
  Claim C1 as stated fails: the record the extraction builds in the page for a row
  whose last five cells are missing and the one it builds for a row whose last five
  cells are empty are different records with the same CSV text, and so are a record
  with a \<open>null\<close> and one with an empty string; no deserializer returns both sequences of
  such a pair.
\<close>

theorem csv_roundtrip_counterexample:
  "uniform (tableData dec_str2num [[''h''], [''1'', ''HT1'', ''7'']])
   \<and> uniform (tableData dec_str2num [[''h''], [''1'', ''HT1'', ''7'', [], [], [], [], []]])
   \<and> tableData dec_str2num [[''h''], [''1'', ''HT1'', ''7'']]
       \<noteq> tableData dec_str2num [[''h''], [''1'', ''HT1'', ''7'', [], [], [], [], []]]
   \<and> convertToCsv dec_num2str (Some (tableData dec_str2num [[''h''], [''1'', ''HT1'', ''7'']]))
       = convertToCsv dec_num2str
           (Some (tableData dec_str2num [[''h''], [''1'', ''HT1'', ''7'', [], [], [], [], []]]))
   \<and> uniform [[(''a'', JNull :: nat jsval)]] \<and> uniform [[(''a'', JString [] :: nat jsval)]]
   \<and> [[(''a'', JNull :: nat jsval)]] \<noteq> [[(''a'', JString [])]]
   \<and> convertToCsv dec_num2str (Some [[(''a'', JNull)]])
       = convertToCsv dec_num2str (Some [[(''a'', JString [])]])"
  by code_simp

end
